theory Spec2Isabelle
  imports Main "HOL-Library.Code_Target_Nat"
begin

section \<open>Element type, exceptions and the trace of element operations\<close>

text \<open>
  \<^verbatim>\<open>vector.h\<close> defines \<^verbatim>\<open>RawMemory<T>\<close> (a block of uninitialised storage) and
  \<^verbatim>\<open>Vector<T>\<close> (the container built on it).  The element type \<^verbatim>\<open>T\<close> is a template
  parameter; everything the container does with it is to call its constructors, its
  assignment operators and its destructor.  The model is parametric in the element
  type \<open>'a\<close> and in an environment that fixes what those calls do:

  \<^item> \<open>nothrow_move_constructible\<close> and \<open>copy_constructible\<close> are the two type traits
    queried by \<^verbatim>\<open>if constexpr\<close>;
  \<^item> \<open>throws k t\<close> says whether the operation of kind \<open>k\<close> that is attempted as the
    \<open>t\<close>-th operation of the run (counted from 0, over all kinds) throws.  Since the
    code is deterministic, every pattern of failures ("the copy constructor throws on
    the k-th copy", "\<^verbatim>\<open>operator new\<close> fails for this request") is one such function;
  \<^item> \<open>value_init\<close> is the value of \<^verbatim>\<open>T()\<close>, and \<open>moved_from x\<close> is the value a live
    object of value \<open>x\<close> is left with after it has been moved from;
  \<^item> \<open>size_of\<close> is \<^verbatim>\<open>sizeof(T)\<close>, the number of bytes of one object.

  A throwing element operation leaves its operands as they were.  An operation declared
  \<^verbatim>\<open>noexcept\<close> does not throw; for the move constructor this is what the trait
  \<open>nothrow_move_constructible\<close> promises.
\<close>

text \<open>
  The operations: \<^verbatim>\<open>operator new\<close> with the number of bytes requested, the constructors
  of \<^verbatim>\<open>T\<close> (value initialisation, the copy constructor, the move constructor, and
  \<open>ArgCtor\<close> for any other constructor that the arguments of an emplacement select), and
  the two assignment operators.
\<close>

datatype elem_op = OpNew nat | ValueCtor | ArgCtor | CopyCtor | MoveCtor | CopyAsg | MoveAsg

text \<open>
  Lifetime errors of the container are recorded, not hidden: running a destructor on a
  slot that holds no live object, reading or assigning a slot that holds no live object,
  constructing over a live object, constructing outside the block, and releasing a block
  that still holds live objects.  A faulting destructor call, read or assignment is
  recorded and has no other effect; so is a construction outside the block.
\<close>

datatype fault = DestroyNotLive | UseNotLive | ConstructNotRaw | ConstructOutside | FreedWhileLive

datatype event = Did elem_op | Threw elem_op | Destroyed | Fault fault

datatype exn = bad_alloc | elem_exn

text \<open>
  A call returns (\<open>Ok\<close>, with its result), exits with an exception (\<open>Throw\<close>), or stops
  the program at a failed \<^verbatim>\<open>assert\<close> (\<open>Abort\<close>).  The state that survives the call is
  carried by \<open>Ok\<close> and by \<open>Throw\<close>.
\<close>

datatype ('r, 's) outcome = Ok 'r 's | Throw exn 's | Abort

record world =
  tick :: nat
  trace :: "event list"

record 'a env =
  nothrow_move_constructible :: bool
  copy_constructible :: bool
  throws :: "elem_op \<Rightarrow> nat \<Rightarrow> bool"
  value_init :: 'a
  moved_from :: "'a \<Rightarrow> 'a"
  size_of :: nat

definition log_event :: "event \<Rightarrow> world \<Rightarrow> world" where
  "log_event e w = w\<lparr>trace := trace w @ [e]\<rparr>"

definition can_throw :: "'a env \<Rightarrow> elem_op \<Rightarrow> bool" where
  "can_throw env k = (case k of MoveCtor \<Rightarrow> \<not> nothrow_move_constructible env | _ \<Rightarrow> True)"

text \<open>One attempted operation: it is counted, recorded, and reports whether it threw.\<close>

definition attempt :: "'a env \<Rightarrow> elem_op \<Rightarrow> world \<Rightarrow> bool \<times> world" where
  "attempt env k w =
     (let fail = (can_throw env k \<and> throws env k (tick w))
      in (fail, \<lparr>tick = Suc (tick w), trace = trace w @ [if fail then Threw k else Did k]\<rparr>))"

section \<open>Storage: slots and the standard algorithms on them\<close>

text \<open>
  A block of storage for \<open>n\<close> elements is a list of \<open>n\<close> slots; a slot is \<open>None\<close> while
  it is uninitialised memory and \<open>Some x\<close> while it holds a live object of value \<open>x\<close>.
  A pointer into a block is the index of a slot.  A \<^verbatim>\<open>RawMemory\<close> cannot be copied and
  is owned by one \<^verbatim>\<open>Vector\<close>, so a block is never shared and is held by value.
\<close>

type_synonym 'a buffer = "'a option list"

definition slot :: "'a buffer \<Rightarrow> nat \<Rightarrow> 'a option" where
  "slot buf i = (if i < length buf then buf ! i else None)"

text \<open>\<^verbatim>\<open>new (p) T(...)\<close> and \<^verbatim>\<open>std::construct_at\<close>: operation \<open>k\<close> builds the value \<open>x\<close> in slot \<open>i\<close>.\<close>

definition construct_at :: "'a env \<Rightarrow> elem_op \<Rightarrow> 'a \<Rightarrow> 'a buffer \<Rightarrow> nat \<Rightarrow> world \<Rightarrow> bool \<times> 'a buffer \<times> world" where
  "construct_at env k x buf i w =
     (case attempt env k w of (fail, w1) \<Rightarrow>
        if fail then (True, buf, w1)
        else (False, buf[i := Some x],
              if i < length buf
              then (if buf ! i = None then w1 else log_event (Fault ConstructNotRaw) w1)
              else log_event (Fault ConstructOutside) w1))"

text \<open>\<^verbatim>\<open>*p = value\<close>: assignment \<open>k\<close> of the value \<open>x\<close> to the live object in slot \<open>i\<close>.\<close>

definition assign_at :: "'a env \<Rightarrow> elem_op \<Rightarrow> 'a \<Rightarrow> 'a buffer \<Rightarrow> nat \<Rightarrow> world \<Rightarrow> bool \<times> 'a buffer \<times> world" where
  "assign_at env k x buf i w =
     (case slot buf i of
        None \<Rightarrow> (False, buf, log_event (Fault UseNotLive) w)
      | Some y \<Rightarrow>
          (case attempt env k w of (fail, w1) \<Rightarrow>
             if fail then (True, buf, w1) else (False, buf[i := Some x], w1)))"

text \<open>\<^verbatim>\<open>*d = std::move(*s)\<close> with both pointers into the same block.\<close>

definition move_assign_within :: "'a env \<Rightarrow> 'a buffer \<Rightarrow> nat \<Rightarrow> nat \<Rightarrow> world \<Rightarrow> bool \<times> 'a buffer \<times> world" where
  "move_assign_within env buf s d w =
     (case slot buf s of
        None \<Rightarrow> (False, buf, log_event (Fault UseNotLive) w)
      | Some x \<Rightarrow>
          (case slot buf d of
             None \<Rightarrow> (False, buf, log_event (Fault UseNotLive) w)
           | Some y \<Rightarrow>
               (case attempt env MoveAsg w of (fail, w1) \<Rightarrow>
                  if fail then (True, buf, w1)
                  else (False, buf[s := Some (moved_from env x), d := Some x], w1))))"

text \<open>\<^verbatim>\<open>new (d) T(std::move(*s))\<close> with both pointers into the same block.\<close>

definition move_construct_within :: "'a env \<Rightarrow> 'a buffer \<Rightarrow> nat \<Rightarrow> nat \<Rightarrow> world \<Rightarrow> bool \<times> 'a buffer \<times> world" where
  "move_construct_within env buf s d w =
     (case slot buf s of
        None \<Rightarrow> (False, buf, log_event (Fault UseNotLive) w)
      | Some x \<Rightarrow>
          (case construct_at env MoveCtor x buf d w of (fail, b1, w1) \<Rightarrow>
             if fail then (True, b1, w1)
             else (False, b1[s := Some (moved_from env x)], w1)))"

definition destroy_at :: "'a buffer \<Rightarrow> nat \<Rightarrow> world \<Rightarrow> 'a buffer \<times> world" where
  "destroy_at buf i w =
     (case slot buf i of
        None \<Rightarrow> (buf, log_event (Fault DestroyNotLive) w)
      | Some y \<Rightarrow> (buf[i := None], log_event Destroyed w))"

text \<open>\<^verbatim>\<open>std::destroy_n(first, n)\<close>.\<close>

fun destroy_n :: "'a buffer \<Rightarrow> nat \<Rightarrow> nat \<Rightarrow> world \<Rightarrow> 'a buffer \<times> world" where
  "destroy_n buf first 0 w = (buf, w)"
| "destroy_n buf first (Suc n) w =
     (case destroy_at buf first w of (b1, w1) \<Rightarrow> destroy_n b1 (Suc first) n w1)"

text \<open>
  \<^verbatim>\<open>std::uninitialized_copy_n(first, n, d_first)\<close>, from one block into another.  If a
  copy constructor throws, the objects already built in the destination are destroyed and
  the exception is rethrown.  \<open>d0\<close> is \<^verbatim>\<open>d_first\<close>, \<open>d\<close> the current destination.
\<close>

fun uninit_copy :: "'a env \<Rightarrow> 'a buffer \<Rightarrow> nat \<Rightarrow> nat \<Rightarrow> 'a buffer \<Rightarrow> nat \<Rightarrow> nat \<Rightarrow> world
    \<Rightarrow> (unit, 'a buffer \<times> world) outcome" where
  "uninit_copy env src s 0 dst d0 d w = Ok () (dst, w)"
| "uninit_copy env src s (Suc n) dst d0 d w =
     (case slot src s of
        None \<Rightarrow> uninit_copy env src (Suc s) n dst d0 (Suc d) (log_event (Fault UseNotLive) w)
      | Some x \<Rightarrow>
          (case construct_at env CopyCtor x dst d w of (fail, dst1, w1) \<Rightarrow>
             if fail then Throw elem_exn (destroy_n dst1 d0 (d - d0) w1)
             else uninit_copy env src (Suc s) n dst1 d0 (Suc d) w1))"

definition uninitialized_copy_n :: "'a env \<Rightarrow> 'a buffer \<Rightarrow> nat \<Rightarrow> nat \<Rightarrow> 'a buffer \<Rightarrow> nat \<Rightarrow> world
    \<Rightarrow> (unit, 'a buffer \<times> world) outcome" where
  "uninitialized_copy_n env src first n dst d_first w = uninit_copy env src first n dst d_first d_first w"

text \<open>
  \<^verbatim>\<open>std::uninitialized_move_n(first, n, d_first)\<close>, from one block into another: as above
  with the move constructor, which leaves each source object moved-from.  The state is
  the pair (source block, destination block).
\<close>

fun uninit_move :: "'a env \<Rightarrow> 'a buffer \<Rightarrow> nat \<Rightarrow> nat \<Rightarrow> 'a buffer \<Rightarrow> nat \<Rightarrow> nat \<Rightarrow> world
    \<Rightarrow> (unit, ('a buffer \<times> 'a buffer) \<times> world) outcome" where
  "uninit_move env src s 0 dst d0 d w = Ok () ((src, dst), w)"
| "uninit_move env src s (Suc n) dst d0 d w =
     (case slot src s of
        None \<Rightarrow> uninit_move env src (Suc s) n dst d0 (Suc d) (log_event (Fault UseNotLive) w)
      | Some x \<Rightarrow>
          (case construct_at env MoveCtor x dst d w of (fail, dst1, w1) \<Rightarrow>
             if fail then (case destroy_n dst1 d0 (d - d0) w1 of (dst2, w2) \<Rightarrow> Throw elem_exn ((src, dst2), w2))
             else uninit_move env (src[s := Some (moved_from env x)]) (Suc s) n dst1 d0 (Suc d) w1))"

definition uninitialized_move_n :: "'a env \<Rightarrow> 'a buffer \<Rightarrow> nat \<Rightarrow> nat \<Rightarrow> 'a buffer \<Rightarrow> nat \<Rightarrow> world
    \<Rightarrow> (unit, ('a buffer \<times> 'a buffer) \<times> world) outcome" where
  "uninitialized_move_n env src first n dst d_first w = uninit_move env src first n dst d_first d_first w"

text \<open>\<^verbatim>\<open>std::uninitialized_value_construct_n(first, n)\<close>.\<close>

fun uninit_value_construct :: "'a env \<Rightarrow> nat \<Rightarrow> 'a buffer \<Rightarrow> nat \<Rightarrow> nat \<Rightarrow> world
    \<Rightarrow> (unit, 'a buffer \<times> world) outcome" where
  "uninit_value_construct env 0 dst d0 d w = Ok () (dst, w)"
| "uninit_value_construct env (Suc n) dst d0 d w =
     (case construct_at env ValueCtor (value_init env) dst d w of (fail, dst1, w1) \<Rightarrow>
        if fail then Throw elem_exn (destroy_n dst1 d0 (d - d0) w1)
        else uninit_value_construct env n dst1 d0 (Suc d) w1)"

definition uninitialized_value_construct_n :: "'a env \<Rightarrow> 'a buffer \<Rightarrow> nat \<Rightarrow> nat \<Rightarrow> world
    \<Rightarrow> (unit, 'a buffer \<times> world) outcome" where
  "uninitialized_value_construct_n env dst first n w = uninit_value_construct env n dst first first w"

text \<open>
  \<^verbatim>\<open>std::copy(first, first + n, d_first)\<close>, from one block into another: element-wise
  copy assignment, front to back; an exception leaves the elements assigned so far.
\<close>

fun copy_range :: "'a env \<Rightarrow> 'a buffer \<Rightarrow> nat \<Rightarrow> nat \<Rightarrow> 'a buffer \<Rightarrow> nat \<Rightarrow> world
    \<Rightarrow> (unit, 'a buffer \<times> world) outcome" where
  "copy_range env src s 0 dst d w = Ok () (dst, w)"
| "copy_range env src s (Suc n) dst d w =
     (case slot src s of
        None \<Rightarrow> copy_range env src (Suc s) n dst (Suc d) (log_event (Fault UseNotLive) w)
      | Some x \<Rightarrow>
          (case assign_at env CopyAsg x dst d w of (fail, dst1, w1) \<Rightarrow>
             if fail then Throw elem_exn (dst1, w1)
             else copy_range env src (Suc s) n dst1 (Suc d) w1))"

text \<open>
  \<^verbatim>\<open>std::move(first, first + n, d_first)\<close> inside one block: element-wise move assignment,
  front to back.
\<close>

fun move_range :: "'a env \<Rightarrow> 'a buffer \<Rightarrow> nat \<Rightarrow> nat \<Rightarrow> nat \<Rightarrow> world
    \<Rightarrow> (unit, 'a buffer \<times> world) outcome" where
  "move_range env buf s 0 d w = Ok () (buf, w)"
| "move_range env buf s (Suc n) d w =
     (case move_assign_within env buf s d w of (fail, b1, w1) \<Rightarrow>
        if fail then Throw elem_exn (b1, w1)
        else move_range env b1 (Suc s) n (Suc d) w1)"

text \<open>
  \<^verbatim>\<open>std::move_backward(first, first + n, d_last)\<close> inside one block: element-wise move
  assignment, back to front (\<^verbatim>\<open>*(--d_last) = std::move(*(--last))\<close>).
\<close>

fun move_backward :: "'a env \<Rightarrow> 'a buffer \<Rightarrow> nat \<Rightarrow> nat \<Rightarrow> nat \<Rightarrow> world
    \<Rightarrow> (unit, 'a buffer \<times> world) outcome" where
  "move_backward env buf first 0 d_last w = Ok () (buf, w)"
| "move_backward env buf first (Suc n) d_last w =
     (case move_assign_within env buf (first + n) (d_last - 1) w of (fail, b1, w1) \<Rightarrow>
        if fail then Throw elem_exn (b1, w1)
        else move_backward env b1 first n (d_last - 1) w1)"

section \<open>RawMemory\<close>

text \<open>
  The members \<^verbatim>\<open>buffer_\<close>, \<^verbatim>\<open>capacity_\<close>, \<^verbatim>\<open>data_\<close> and \<^verbatim>\<open>size_\<close> are the fields
  \<open>m_buffer\<close>, \<open>m_capacity\<close>, \<open>m_data\<close> and \<open>m_size\<close>.  The null pointer is the block
  with no slot.  \<^verbatim>\<open>size_t\<close> has 64 bits: the three places where the code computes a
  new size that is not bounded by an existing one (\<^verbatim>\<open>n * sizeof(T)\<close>, \<^verbatim>\<open>Capacity() * 2\<close>
  and \<^verbatim>\<open>++size_\<close>) wrap modulo \<open>2 ^ 64\<close>.
\<close>

definition size_t_max :: nat where
  "size_t_max = 2 ^ 64"

record 'a RawMemory =
  m_buffer :: "'a buffer"
  m_capacity :: nat

definition RawMemory_default :: "'a RawMemory" where
  "RawMemory_default = \<lparr>m_buffer = [], m_capacity = 0\<rparr>"

text \<open>
  \<^verbatim>\<open>Allocate(n)\<close>: no allocation for \<open>n = 0\<close>; otherwise \<^verbatim>\<open>operator new(n * sizeof(T))\<close>,
  which throws \<^verbatim>\<open>std::bad_alloc\<close> when the environment says so.  The product is computed
  in \<^verbatim>\<open>size_t\<close>; the block returned has as many slots as objects fit into the bytes
  requested, which are fewer than \<open>n\<close> when the product has wrapped.
\<close>

definition Allocate :: "'a env \<Rightarrow> nat \<Rightarrow> world \<Rightarrow> ('a buffer, world) outcome" where
  "Allocate env n w =
     (if n \<noteq> 0 then
        (let bytes = (n * size_of env) mod size_t_max in
         case attempt env (OpNew bytes) w of (fail, w1) \<Rightarrow>
           if fail then Throw bad_alloc w1 else Ok (replicate (bytes div size_of env) None) w1)
      else Ok [] w)"

definition RawMemory_new :: "'a env \<Rightarrow> nat \<Rightarrow> world \<Rightarrow> ('a RawMemory, world) outcome" where
  "RawMemory_new env capacity w =
     (case Allocate env capacity w of
        Ok b w1 \<Rightarrow> Ok \<lparr>m_buffer = b, m_capacity = capacity\<rparr> w1
      | Throw e w1 \<Rightarrow> Throw e w1
      | Abort \<Rightarrow> Abort)"

definition RawMemory_Swap :: "'a RawMemory \<Rightarrow> 'a RawMemory \<Rightarrow> 'a RawMemory \<times> 'a RawMemory" where
  "RawMemory_Swap this other =
     (this\<lparr>m_buffer := m_buffer other, m_capacity := m_capacity other\<rparr>,
      other\<lparr>m_buffer := m_buffer this, m_capacity := m_capacity this\<rparr>)"

text \<open>
  \<^verbatim>\<open>~RawMemory()\<close> releases the block without running any destructor; it is recorded
  when the block still holds a live object.
\<close>

definition RawMemory_dtor :: "'a RawMemory \<Rightarrow> world \<Rightarrow> world" where
  "RawMemory_dtor m w =
     (if list_ex (\<lambda>s. s \<noteq> None) (m_buffer m) then log_event (Fault FreedWhileLive) w else w)"

section \<open>Vector\<close>

record 'a Vector =
  m_data :: "'a RawMemory"
  m_size :: nat


definition Capacity :: "'a Vector \<Rightarrow> nat" where
  "Capacity v = m_capacity (m_data v)"

text \<open>Writing through \<^verbatim>\<open>data_.GetAddress()\<close> changes the block of the vector.\<close>

definition set_buffer :: "'a buffer \<Rightarrow> 'a Vector \<Rightarrow> 'a Vector" where
  "set_buffer b v = v\<lparr>m_data := (m_data v)\<lparr>m_buffer := b\<rparr>\<rparr>"

definition Vector_default :: "'a Vector" where
  "Vector_default = \<lparr>m_data = RawMemory_default, m_size = 0\<rparr>"


definition Vector_copy :: "'a env \<Rightarrow> 'a Vector \<Rightarrow> world \<Rightarrow> ('a Vector, world) outcome" where
  "Vector_copy env other w =
     (case RawMemory_new env (m_size other) w of
        Abort \<Rightarrow> Abort
      | Throw e w1 \<Rightarrow> Throw e w1
      | Ok d w1 \<Rightarrow>
          (case uninitialized_copy_n env (m_buffer (m_data other)) 0 (m_size other) (m_buffer d) 0 w1 of
             Abort \<Rightarrow> Abort
           | Throw e (b, w2) \<Rightarrow> Throw e (RawMemory_dtor (d\<lparr>m_buffer := b\<rparr>) w2)
           | Ok u (b, w2) \<Rightarrow> Ok \<lparr>m_data = d\<lparr>m_buffer := b\<rparr>, m_size = m_size other\<rparr> w2))"

text \<open>\<^verbatim>\<open>~Vector()\<close>: destroys the \<^verbatim>\<open>size_\<close> elements, then \<^verbatim>\<open>data_\<close> is released.\<close>

definition Vector_dtor :: "'a Vector \<Rightarrow> world \<Rightarrow> world" where
  "Vector_dtor v w =
     (case destroy_n (m_buffer (m_data v)) 0 (m_size v) w of
        (b, w1) \<Rightarrow> RawMemory_dtor ((m_data v)\<lparr>m_buffer := b\<rparr>) w1)"

text \<open>\<^verbatim>\<open>Swap\<close>: \<^verbatim>\<open>data_.Swap(other.data_); std::swap(size_, other.size_)\<close>.\<close>

definition Swap :: "'a Vector \<Rightarrow> 'a Vector \<Rightarrow> 'a Vector \<times> 'a Vector" where
  "Swap this other =
     (case RawMemory_Swap (m_data this) (m_data other) of
        (d1, d2) \<Rightarrow> (this\<lparr>m_data := d1, m_size := m_size other\<rparr>,
                     other\<lparr>m_data := d2, m_size := m_size this\<rparr>))"

text \<open>
  \<^verbatim>\<open>use_move\<close> is the condition of the three \<^verbatim>\<open>if constexpr\<close>:
  \<^verbatim>\<open>std::is_nothrow_move_constructible_v<T> || !std::is_copy_constructible_v<T>\<close>.
\<close>

definition use_move :: "'a env \<Rightarrow> bool" where
  "use_move env = (nothrow_move_constructible env \<or> \<not> copy_constructible env)"

text \<open>
  The end of every reallocation: \<^verbatim>\<open>std::destroy_n(data_.GetAddress(), size_);
  data_.Swap(new_data);\<close> and, when \<^verbatim>\<open>new_data\<close> goes out of scope, the release of the
  old block it now holds.
\<close>

definition install_new_data :: "'a Vector \<Rightarrow> 'a RawMemory \<Rightarrow> world \<Rightarrow> 'a Vector \<times> world" where
  "install_new_data v new_data w =
     (case destroy_n (m_buffer (m_data v)) 0 (m_size v) w of (old, w1) \<Rightarrow>
        (case RawMemory_Swap ((m_data v)\<lparr>m_buffer := old\<rparr>) new_data of (d, nd) \<Rightarrow>
           (v\<lparr>m_data := d\<rparr>, RawMemory_dtor nd w1)))"

definition Reserve :: "'a env \<Rightarrow> nat \<Rightarrow> 'a Vector \<Rightarrow> world \<Rightarrow> (unit, 'a Vector \<times> world) outcome" where
  "Reserve env new_capacity v w =
     (if new_capacity \<le> m_capacity (m_data v) then Ok () (v, w)
      else
        (case RawMemory_new env new_capacity w of
           Abort \<Rightarrow> Abort
         | Throw e w1 \<Rightarrow> Throw e (v, w1)
         | Ok new_data w1 \<Rightarrow>
             (if use_move env then
                (case uninitialized_move_n env (m_buffer (m_data v)) 0 (m_size v) (m_buffer new_data) 0 w1 of
                   Abort \<Rightarrow> Abort
                 | Throw e ((old, nb), w2) \<Rightarrow>
                     Throw e (set_buffer old v, RawMemory_dtor (new_data\<lparr>m_buffer := nb\<rparr>) w2)
                 | Ok u ((old, nb), w2) \<Rightarrow>
                     Ok () (install_new_data (set_buffer old v) (new_data\<lparr>m_buffer := nb\<rparr>) w2))
              else
                (case uninitialized_copy_n env (m_buffer (m_data v)) 0 (m_size v) (m_buffer new_data) 0 w1 of
                   Abort \<Rightarrow> Abort
                 | Throw e (nb, w2) \<Rightarrow> Throw e (v, RawMemory_dtor (new_data\<lparr>m_buffer := nb\<rparr>) w2)
                 | Ok u (nb, w2) \<Rightarrow> Ok () (install_new_data v (new_data\<lparr>m_buffer := nb\<rparr>) w2)))))"

definition Resize :: "'a env \<Rightarrow> nat \<Rightarrow> 'a Vector \<Rightarrow> world \<Rightarrow> (unit, 'a Vector \<times> world) outcome" where
  "Resize env new_size v w =
     (if new_size < m_size v then
        (case destroy_n (m_buffer (m_data v)) new_size (m_size v - new_size) w of
           (b, w1) \<Rightarrow> Ok () ((set_buffer b v)\<lparr>m_size := new_size\<rparr>, w1))
      else
        (case Reserve env new_size v w of
           Abort \<Rightarrow> Abort
         | Throw e s \<Rightarrow> Throw e s
         | Ok u (v1, w1) \<Rightarrow>
             (case uninitialized_value_construct_n env (m_buffer (m_data v1)) (m_size v1) (new_size - m_size v1) w1 of
                Abort \<Rightarrow> Abort
              | Throw e (b, w2) \<Rightarrow> Throw e (set_buffer b v1, w2)
              | Ok u2 (b, w2) \<Rightarrow> Ok () ((set_buffer b v1)\<lparr>m_size := new_size\<rparr>, w2))))"

definition PopBack :: "'a Vector \<Rightarrow> world \<Rightarrow> (unit, 'a Vector \<times> world) outcome" where
  "PopBack v w =
     (if \<not> m_size v \<noteq> 0 then Abort
      else
        (case destroy_n (m_buffer (m_data v)) (m_size v - 1) 1 w of
           (b, w1) \<Rightarrow> Ok () ((set_buffer b v)\<lparr>m_size := m_size v - 1\<rparr>, w1)))"

text \<open>
  The last lines of \<^verbatim>\<open>EmplaceBack\<close>: \<^verbatim>\<open>size_t new_size_ = size_; ++size_;
  return data_[new_size_];\<close>, where \<^verbatim>\<open>RawMemory::operator[]\<close> asserts
  \<^verbatim>\<open>index < capacity_\<close>.  The reference returned is the index of its slot.
\<close>

definition EmplaceBack_return :: "'a Vector \<Rightarrow> world \<Rightarrow> (nat, 'a Vector \<times> world) outcome" where
  "EmplaceBack_return v w =
     (let new_size = m_size v;
          v1 = v\<lparr>m_size := (m_size v + 1) mod size_t_max\<rparr>
      in if new_size < m_capacity (m_data v1) then Ok new_size (v1, w) else Abort)"

text \<open>
  \<^verbatim>\<open>EmplaceBack(args...)\<close> and \<^verbatim>\<open>PushBack(args...)\<close>.  The arguments are represented by the
  constructor \<open>ctor\<close> of \<^verbatim>\<open>T\<close> that they select (the copy constructor for
  \<^verbatim>\<open>PushBack(const T&)\<close>, the move constructor for \<^verbatim>\<open>PushBack(T&&)\<close>, \<open>ArgCtor\<close> for
  any other) and by the value \<open>x\<close> that it builds.
\<close>

definition EmplaceBack :: "'a env \<Rightarrow> elem_op \<Rightarrow> 'a \<Rightarrow> 'a Vector \<Rightarrow> world \<Rightarrow> (nat, 'a Vector \<times> world) outcome" where
  "EmplaceBack env ctor x v w =
     (if m_size v = Capacity v then
        (case RawMemory_new env (if m_size v = 0 then 1 else (Capacity v * 2) mod size_t_max) w of
           Abort \<Rightarrow> Abort
         | Throw e w1 \<Rightarrow> Throw e (v, w1)
         | Ok new_data w1 \<Rightarrow>
             (case construct_at env ctor x (m_buffer new_data) (m_size v) w1 of (fail, nb, w2) \<Rightarrow>
                if fail then Throw elem_exn (v, RawMemory_dtor (new_data\<lparr>m_buffer := nb\<rparr>) w2)
                else if use_move env then
                  (case uninitialized_move_n env (m_buffer (m_data v)) 0 (m_size v) nb 0 w2 of
                     Abort \<Rightarrow> Abort
                   | Throw e ((old, nb1), w3) \<Rightarrow>
                       Throw e (set_buffer old v, RawMemory_dtor (new_data\<lparr>m_buffer := nb1\<rparr>) w3)
                   | Ok u ((old, nb1), w3) \<Rightarrow>
                       (case install_new_data (set_buffer old v) (new_data\<lparr>m_buffer := nb1\<rparr>) w3 of
                          (v1, w4) \<Rightarrow> EmplaceBack_return v1 w4))
                else
                  (case uninitialized_copy_n env (m_buffer (m_data v)) 0 (m_size v) nb 0 w2 of
                     Abort \<Rightarrow> Abort
                   | Throw e (nb1, w3) \<Rightarrow>
                       (case destroy_n nb1 0 (m_size v) w3 of (nb2, w4) \<Rightarrow>
                          Throw e (v, RawMemory_dtor (new_data\<lparr>m_buffer := nb2\<rparr>) w4))
                   | Ok u (nb1, w3) \<Rightarrow>
                       (case install_new_data v (new_data\<lparr>m_buffer := nb1\<rparr>) w3 of
                          (v1, w4) \<Rightarrow> EmplaceBack_return v1 w4))))
      else if m_size v < Capacity v then
        (case construct_at env ctor x (m_buffer (m_data v)) (m_size v) w of (fail, b, w1) \<Rightarrow>
           if fail then Throw elem_exn (v, w1) else EmplaceBack_return (set_buffer b v) w1)
      else EmplaceBack_return v w)"

definition PushBack :: "'a env \<Rightarrow> elem_op \<Rightarrow> 'a \<Rightarrow> 'a Vector \<Rightarrow> world \<Rightarrow> (unit, 'a Vector \<times> world) outcome" where
  "PushBack env ctor x v w =
     (case EmplaceBack env ctor x v w of
        Abort \<Rightarrow> Abort
      | Throw e s \<Rightarrow> Throw e s
      | Ok r s \<Rightarrow> Ok () s)"

text \<open>
  \<^verbatim>\<open>Emplace(pos, args...)\<close>.  The iterator \<open>pos\<close> is its offset from \<^verbatim>\<open>begin()\<close>, an
  integer, so that the \<^verbatim>\<open>assert\<close> on it can fail on both sides; the arguments are
  represented by \<open>ctor\<close> and \<open>x\<close> as above.  The iterator returned is its offset.
  The function is split in three: its last two lines, the branch that shifts the
  elements inside spare capacity, and the branch that reallocates.
\<close>

definition Emplace_return :: "nat \<Rightarrow> 'a Vector \<Rightarrow> world \<Rightarrow> (nat, 'a Vector \<times> world) outcome" where
  "Emplace_return count v w = Ok count (v\<lparr>m_size := (m_size v + 1) mod size_t_max\<rparr>, w)"

text \<open>
  The \<^verbatim>\<open>else\<close> branch of \<^verbatim>\<open>pos == end()\<close>.  The local \<^verbatim>\<open>temp\<close> is destroyed when its
  block is left, normally or by an exception.  The second \<^verbatim>\<open>catch\<close> has no \<^verbatim>\<open>throw\<close>.
\<close>

definition Emplace_shift :: "'a env \<Rightarrow> nat \<Rightarrow> elem_op \<Rightarrow> 'a \<Rightarrow> 'a Vector \<Rightarrow> world \<Rightarrow> (nat, 'a Vector \<times> world) outcome" where
  "Emplace_shift env count ctor x v w =
     (if \<not> m_size v > 0 then Abort
      else
        (case attempt env ctor w of (fail, w1) \<Rightarrow>
           if fail then Throw elem_exn (v, w1)
           else
             (case move_construct_within env (m_buffer (m_data v)) (m_size v - 1) (m_size v) w1 of (fail1, b1, w2) \<Rightarrow>
                if fail1 then Throw elem_exn (set_buffer b1 v, log_event Destroyed w2)
                else
                  (case move_backward env b1 count (m_size v - 1 - count) (m_size v) w2 of
                     Abort \<Rightarrow> Abort
                   | Throw e (b2, w3) \<Rightarrow>
                       (case destroy_n b2 (m_size v) 1 w3 of (b3, w4) \<Rightarrow>
                          Throw e (set_buffer b3 v, log_event Destroyed w4))
                   | Ok u (b2, w3) \<Rightarrow>
                       (if \<not> count < m_capacity (m_data v) then Abort
                        else
                          (case assign_at env MoveAsg x b2 count w3 of (fail2, b3, w4) \<Rightarrow>
                             if fail2 then
                               (case destroy_n b3 count 1 w4 of (b4, w5) \<Rightarrow>
                                  Emplace_return count (set_buffer b4 v) (log_event Destroyed w5))
                             else Emplace_return count (set_buffer b3 v) (log_event Destroyed w4)))))))"

definition Emplace_realloc :: "'a env \<Rightarrow> nat \<Rightarrow> elem_op \<Rightarrow> 'a \<Rightarrow> 'a Vector \<Rightarrow> world \<Rightarrow> (nat, 'a Vector \<times> world) outcome" where
  "Emplace_realloc env count ctor x v w =
     (case RawMemory_new env (if m_size v = 0 then 1 else (Capacity v * 2) mod size_t_max) w of
        Abort \<Rightarrow> Abort
      | Throw e w1 \<Rightarrow> Throw e (v, w1)
      | Ok new_data w1 \<Rightarrow>
          (case construct_at env ctor x (m_buffer new_data) count w1 of (fail, nb, w2) \<Rightarrow>
             if fail then
               (case destroy_n nb count 1 w2 of (nb1, w3) \<Rightarrow>
                  Throw elem_exn (v, RawMemory_dtor (new_data\<lparr>m_buffer := nb1\<rparr>) w3))
             else if use_move env then
               (case uninitialized_move_n env (m_buffer (m_data v)) 0 count nb 0 w2 of
                  Abort \<Rightarrow> Abort
                | Throw e ((old, nb1), w3) \<Rightarrow>
                    Throw e (set_buffer old v, RawMemory_dtor (new_data\<lparr>m_buffer := nb1\<rparr>) w3)
                | Ok u ((old, nb1), w3) \<Rightarrow>
                    (case uninitialized_move_n env old count (m_size v - count) nb1 (count + 1) w3 of
                       Abort \<Rightarrow> Abort
                     | Throw e ((old1, nb2), w4) \<Rightarrow>
                         Throw e (set_buffer old1 v, RawMemory_dtor (new_data\<lparr>m_buffer := nb2\<rparr>) w4)
                     | Ok u1 ((old1, nb2), w4) \<Rightarrow>
                         (case install_new_data (set_buffer old1 v) (new_data\<lparr>m_buffer := nb2\<rparr>) w4 of
                            (v1, w5) \<Rightarrow> Emplace_return count v1 w5)))
             else
               (case uninitialized_copy_n env (m_buffer (m_data v)) 0 count nb 0 w2 of
                  Abort \<Rightarrow> Abort
                | Throw e (nb1, w3) \<Rightarrow>
                    (case destroy_n nb1 0 (m_size v) w3 of (nb2, w4) \<Rightarrow>
                       Throw e (v, RawMemory_dtor (new_data\<lparr>m_buffer := nb2\<rparr>) w4))
                | Ok u (nb1, w3) \<Rightarrow>
                    (case uninitialized_copy_n env (m_buffer (m_data v)) count (m_size v - count) nb1 (count + 1) w3 of
                       Abort \<Rightarrow> Abort
                     | Throw e (nb2, w4) \<Rightarrow>
                         (case destroy_n nb2 0 (m_size v) w4 of (nb3, w5) \<Rightarrow>
                            Throw e (v, RawMemory_dtor (new_data\<lparr>m_buffer := nb3\<rparr>) w5))
                     | Ok u1 (nb2, w4) \<Rightarrow>
                         (case install_new_data v (new_data\<lparr>m_buffer := nb2\<rparr>) w4 of
                            (v1, w5) \<Rightarrow> Emplace_return count v1 w5)))))"

definition Emplace :: "'a env \<Rightarrow> int \<Rightarrow> elem_op \<Rightarrow> 'a \<Rightarrow> 'a Vector \<Rightarrow> world \<Rightarrow> (nat, 'a Vector \<times> world) outcome" where
  "Emplace env pos ctor x v w =
     (if \<not> (pos \<ge> 0 \<and> pos \<le> int (m_size v)) then Abort
      else
        (let count = nat pos in
         if m_size v < Capacity v then
           (if pos = int (m_size v) then
              (case construct_at env ctor x (m_buffer (m_data v)) (m_size v) w of (fail, b, w1) \<Rightarrow>
                 if fail then Throw elem_exn (v, w1) else Emplace_return count (set_buffer b v) w1)
            else Emplace_shift env count ctor x v w)
         else Emplace_realloc env count ctor x v w))"

definition Insert :: "'a env \<Rightarrow> int \<Rightarrow> elem_op \<Rightarrow> 'a \<Rightarrow> 'a Vector \<Rightarrow> world \<Rightarrow> (nat, 'a Vector \<times> world) outcome" where
  "Insert env pos ctor x v w = Emplace env pos ctor x v w"

text \<open>
  \<^verbatim>\<open>Erase(pos)\<close>: \<^verbatim>\<open>std::move(data + count + 1, data + size_, data + count)\<close>, then
  \<^verbatim>\<open>PopBack()\<close>.
\<close>

definition Erase :: "'a env \<Rightarrow> int \<Rightarrow> 'a Vector \<Rightarrow> world \<Rightarrow> (nat, 'a Vector \<times> world) outcome" where
  "Erase env pos v w =
     (if \<not> (pos < int (m_size v) \<and> pos \<ge> 0) then Abort
      else
        (let count = nat pos in
         case move_range env (m_buffer (m_data v)) (count + 1) (m_size v - (count + 1)) count w of
           Abort \<Rightarrow> Abort
         | Throw e (b, w1) \<Rightarrow> Throw e (set_buffer b v, w1)
         | Ok u (b, w1) \<Rightarrow>
             (case PopBack (set_buffer b v) w1 of
                Abort \<Rightarrow> Abort
              | Throw e s \<Rightarrow> Throw e s
              | Ok u1 s \<Rightarrow> Ok count s)))"

text \<open>\<^verbatim>\<open>CopyAssign(other)\<close>, called by the copy assignment with \<^verbatim>\<open>this != &other\<close>.\<close>

definition CopyAssign :: "'a env \<Rightarrow> 'a Vector \<Rightarrow> 'a Vector \<Rightarrow> world \<Rightarrow> (unit, 'a Vector \<times> world) outcome" where
  "CopyAssign env v other w =
     (let min_size = min (m_size v) (m_size other) in
      case copy_range env (m_buffer (m_data other)) 0 min_size (m_buffer (m_data v)) 0 w of
        Abort \<Rightarrow> Abort
      | Throw e (b, w1) \<Rightarrow> Throw e (set_buffer b v, w1)
      | Ok u (b, w1) \<Rightarrow>
          (if min_size = m_size other then
             (case destroy_n b (m_size other) (m_size v - m_size other) w1 of
                (b1, w2) \<Rightarrow> Ok () (set_buffer b1 v, w2))
           else
             (case uninitialized_copy_n env (m_buffer (m_data other)) (m_size v) (m_size other - m_size v) b (m_size v) w1 of
                Abort \<Rightarrow> Abort
              | Throw e (b1, w2) \<Rightarrow> Throw e (set_buffer b1 v, w2)
              | Ok u1 (b1, w2) \<Rightarrow> Ok () (set_buffer b1 v, w2))))"

section \<open>Operations on two vectors\<close>

text \<open>
  The assignment operators compare \<^verbatim>\<open>this\<close> with \<^verbatim>\<open>&other\<close>, and \<^verbatim>\<open>Swap\<close> may be
  called on one object twice, so the operations on two vectors work on a store of vector
  objects, addressed by numbers.
\<close>

type_synonym 'a store = "nat \<Rightarrow> 'a Vector"

definition Vector_Swap :: "nat \<Rightarrow> nat \<Rightarrow> 'a store \<Rightarrow> 'a store" where
  "Vector_Swap this other h =
     (case Swap (h this) (h other) of (t1, o1) \<Rightarrow> h(this := t1, other := o1))"

text \<open>\<^verbatim>\<open>Vector(Vector&& other) noexcept\<close>: the members are default-initialised, then \<^verbatim>\<open>Swap(other)\<close>.\<close>

definition Vector_move_construct :: "nat \<Rightarrow> nat \<Rightarrow> 'a store \<Rightarrow> world \<Rightarrow> (unit, 'a store \<times> world) outcome" where
  "Vector_move_construct this other h w = Ok () (Vector_Swap this other (h(this := Vector_default)), w)"

text \<open>\<^verbatim>\<open>operator=(Vector&& other) noexcept\<close>.\<close>

definition Vector_move_assign :: "nat \<Rightarrow> nat \<Rightarrow> 'a store \<Rightarrow> world \<Rightarrow> (unit, 'a store \<times> world) outcome" where
  "Vector_move_assign this other h w =
     (if this \<noteq> other then Ok () (Vector_Swap this other h, w) else Ok () (h, w))"

text \<open>
  \<^verbatim>\<open>operator=(const Vector& other)\<close>.  Its last statement, \<^verbatim>\<open>size_ = other.size_\<close>, is
  outside the test \<^verbatim>\<open>this != &other\<close>.  The local \<^verbatim>\<open>copy_other\<close> is destroyed when its
  block is left.
\<close>

definition assign_size :: "nat \<Rightarrow> nat \<Rightarrow> 'a store \<Rightarrow> 'a store" where
  "assign_size this other h = h(this := (h this)\<lparr>m_size := m_size (h other)\<rparr>)"

definition Vector_assign :: "'a env \<Rightarrow> nat \<Rightarrow> nat \<Rightarrow> 'a store \<Rightarrow> world \<Rightarrow> (unit, 'a store \<times> world) outcome" where
  "Vector_assign env this other h w =
     (if this \<noteq> other then
        (if m_size (h other) > m_capacity (m_data (h this)) then
           (case Vector_copy env (h other) w of
              Abort \<Rightarrow> Abort
            | Throw e w1 \<Rightarrow> Throw e (h, w1)
            | Ok copy_other w1 \<Rightarrow>
                (case Swap (h this) copy_other of (t1, c1) \<Rightarrow>
                   Ok () (assign_size this other (h(this := t1)), Vector_dtor c1 w1)))
         else
           (case CopyAssign env (h this) (h other) w of
              Abort \<Rightarrow> Abort
            | Throw e (t1, w1) \<Rightarrow> Throw e (h(this := t1), w1)
            | Ok u (t1, w1) \<Rightarrow> Ok () (assign_size this other (h(this := t1)), w1)))
      else Ok () (assign_size this other h, w))"

section \<open>Sequences of calls\<close>






section \<open>Predicates of the specification\<close>

text \<open>\<open>fails env k t\<close>: the operation of kind \<open>k\<close> attempted at time \<open>t\<close> throws.\<close>

definition fails :: "'a env \<Rightarrow> elem_op \<Rightarrow> nat \<Rightarrow> bool" where
  "fails env k t = (can_throw env k \<and> throws env k t)"

text \<open>\<open>quiet env\<close>: no operation fails, whenever it is attempted.\<close>

definition quiet :: "'a env \<Rightarrow> bool" where
  "quiet env \<longleftrightarrow> (\<forall>k t. \<not> fails env k t)"

text \<open>
  \<open>fits env n\<close>: the bytes of \<open>n\<close> objects are a \<^verbatim>\<open>size_t\<close>, so that \<^verbatim>\<open>n * sizeof(T)\<close>
  does not wrap.
\<close>

definition fits :: "'a env \<Rightarrow> nat \<Rightarrow> bool" where
  "fits env n \<longleftrightarrow> 0 < size_of env \<and> n * size_of env < size_t_max"

text \<open>The world after \<open>n\<close> successful operations of kind \<open>k\<close>, and after \<open>n\<close> destructor calls.\<close>

definition did :: "elem_op \<Rightarrow> nat \<Rightarrow> world \<Rightarrow> world" where
  "did k n w = \<lparr>tick = tick w + n, trace = trace w @ replicate n (Did k)\<rparr>"

definition destroyed :: "nat \<Rightarrow> world \<Rightarrow> world" where
  "destroyed n w = w\<lparr>trace := trace w @ replicate n Destroyed\<rparr>"

text \<open>
  The constructor with which the elements are transferred to a new block, and the other
  one, with which none may be transferred.
\<close>

definition transfer_op :: "'a env \<Rightarrow> elem_op" where
  "transfer_op env = (if use_move env then MoveCtor else CopyCtor)"

definition other_op :: "'a env \<Rightarrow> elem_op" where
  "other_op env = (if use_move env then CopyCtor else MoveCtor)"

text \<open>
  The world after \<open>n\<close> elements have been transferred: \<open>n\<close> constructions by the
  transferring constructor, then \<open>n\<close> destructor calls.
\<close>

definition transferred :: "'a env \<Rightarrow> nat \<Rightarrow> world \<Rightarrow> world" where
  "transferred env n w = destroyed n (did (transfer_op env) n w)"

text \<open>
  \<open>grows w w'\<close>: the trace of \<open>w'\<close> continues the trace of \<open>w\<close>; \<open>new_events w w'\<close> is the
  continuation.  \<open>at_most m k w w'\<close>: in the continuation at most \<open>m\<close> operations of kind
  \<open>k\<close> were attempted.
\<close>

definition grows :: "world \<Rightarrow> world \<Rightarrow> bool" where
  "grows w w' \<longleftrightarrow> take (length (trace w)) (trace w') = trace w"

definition new_events :: "world \<Rightarrow> world \<Rightarrow> event list" where
  "new_events w w' = drop (length (trace w)) (trace w')"

definition attempts_of :: "elem_op \<Rightarrow> event list \<Rightarrow> nat" where
  "attempts_of k es = length (filter (\<lambda>e. e = Did k \<or> e = Threw k) es)"

definition at_most :: "nat \<Rightarrow> elem_op \<Rightarrow> world \<Rightarrow> world \<Rightarrow> bool" where
  "at_most m k w w' \<longleftrightarrow> grows w w' \<and> attempts_of k (new_events w w') \<le> m"

text \<open>
  \<open>own ctor k\<close>: the number of operations of kind \<open>k\<close> in the construction of one new
  element by the constructor \<open>ctor\<close>.
\<close>

definition own :: "elem_op \<Rightarrow> elem_op \<Rightarrow> nat" where
  "own ctor k = (if ctor = k then 1 else 0)"

text \<open>
  \<open>requests env n w w'\<close>: the first event after \<open>w\<close> is the call of \<^verbatim>\<open>operator new\<close>, returning
  or throwing, for the bytes of \<open>n\<close> objects.
\<close>

definition requests :: "'a env \<Rightarrow> nat \<Rightarrow> world \<Rightarrow> world \<Rightarrow> bool" where
  "requests env n w w' \<longleftrightarrow>
     grows w w'
     \<and> (case new_events w w' of
          [] \<Rightarrow> False
        | e # es \<Rightarrow> e = Did (OpNew (n * size_of env mod size_t_max))
                    \<or> e = Threw (OpNew (n * size_of env mod size_t_max)))"

text \<open>
  \<open>leaves r Q\<close>: whenever the call \<open>r\<close> comes back to its caller, by returning or by an
  exception, the world satisfies \<open>Q\<close>.
\<close>

definition leaves :: "('r, 's \<times> world) outcome \<Rightarrow> (world \<Rightarrow> bool) \<Rightarrow> bool" where
  "leaves r Q = (case r of Ok x s \<Rightarrow> Q (snd s) | Throw e s \<Rightarrow> Q (snd s) | Abort \<Rightarrow> True)"

text \<open>
  \<open>sound w\<close>: up to \<open>w\<close> the program has not read or assigned an object outside its
  lifetime and has not constructed an object outside a block.  Past such an event a C++
  program has no defined behaviour.
\<close>

definition sound :: "world \<Rightarrow> bool" where
  "sound w \<longleftrightarrow> Fault UseNotLive \<notin> set (trace w) \<and> Fault ConstructOutside \<notin> set (trace w)"

text \<open>
  \<open>block_inv v\<close>: the elements of \<open>v\<close> lie inside its block, the block has no more slots
  than \<^verbatim>\<open>capacity_\<close> says, and the number of its slots is a \<^verbatim>\<open>size_t\<close>.
\<close>

definition block_inv :: "'a Vector \<Rightarrow> bool" where
  "block_inv v \<longleftrightarrow>
     m_size v \<le> length (m_buffer (m_data v))
     \<and> length (m_buffer (m_data v)) \<le> m_capacity (m_data v)
     \<and> length (m_buffer (m_data v)) < size_t_max"

section \<open>Example element types and vectors\<close>

text \<open>
  An element type with integer values of four bytes whose value-initialised and
  moved-from objects read \<open>0\<close>; its traits and its failures are parameters.
  \<open>vec xs cap\<close> is the vector holding \<open>xs\<close> in a block of \<open>cap\<close> slots.
\<close>

definition elem_type :: "bool \<Rightarrow> bool \<Rightarrow> (elem_op \<Rightarrow> nat \<Rightarrow> bool) \<Rightarrow> int env" where
  "elem_type nm cc f =
     \<lparr>nothrow_move_constructible = nm, copy_constructible = cc, throws = f,
      value_init = 0, moved_from = (\<lambda>x. 0), size_of = 4\<rparr>"

definition vec :: "'a list \<Rightarrow> nat \<Rightarrow> 'a Vector" where
  "vec xs cap =
     \<lparr>m_data = \<lparr>m_buffer = map Some xs @ replicate (cap - length xs) None, m_capacity = cap\<rparr>,
      m_size = length xs\<rparr>"

definition start :: world where
  "start = \<lparr>tick = 0, trace = []\<rparr>"

definition two_vectors :: "int store" where
  "two_vectors = (\<lambda>a. Vector_default)(0 := vec [1] 1, 1 := vec [2, 3] 2)"



section \<open>Swap, move and self-assignment\<close>

lemma Swap_values: "Swap (a :: 'a Vector) b = (b, a)"
  by (simp add: Swap_def RawMemory_Swap_def)

lemma Vector_Swap_exchange:
  "Vector_Swap this other (h :: 'a store) = h(this := h other, other := h this)"
  by (simp add: Vector_Swap_def Swap_values)

text \<open>
  C10.  Copy-assigning a vector to itself returns normally with the store unchanged
  (same length, capacity and elements) and with the world unchanged: no element
  operation, allocation or destruction has been attempted.
\<close>

theorem self_copy_assign: "Vector_assign env a a h w = Ok () (h, w)"
  by (simp add: Vector_assign_def assign_size_def)

theorem self_copy_assign_witness:
  "Vector_assign (elem_type False True (\<lambda>k t. True)) 1 1 two_vectors start = Ok () (two_vectors, start)"
  using self_copy_assign [of "elem_type False True (\<lambda>k t. True)" 1 two_vectors start] by simp

text \<open>
  C3, as stated, fails for move assignment: with \<open>a = [1]\<close> at address 0 and
  \<open>b = [2, 3]\<close> at address 1, after \<^verbatim>\<open>b = std::move(a)\<close> the source \<open>a\<close> holds
  \<open>[2, 3]\<close> and has length 2.
\<close>

theorem move_assign_source_counterexample:
  "Vector_move_assign 1 0 two_vectors start
     = Ok () (two_vectors(1 := vec [1] 1, 0 := vec [2, 3] 2), start)
   \<and> m_size ((two_vectors(1 := vec [1] 1, 0 := vec [2, 3] 2)) 0) = 2"
  by (simp add: Vector_move_assign_def Vector_Swap_exchange two_vectors_def vec_def)

text \<open>
  C3, amended.  For distinct vectors, move assignment exchanges the two vectors (the
  target receives the buffer and length of the source, the source receives those the
  target had), and move construction gives the new vector the buffer and length of the
  source and leaves the source empty, without a buffer.  Both return normally and leave
  the world unchanged: they attempt no element operation and no allocation.
\<close>

theorem move_exchanges:
  "this \<noteq> other \<Longrightarrow>
     Vector_move_assign this other h w = Ok () (h(this := h other, other := h this), w)
   \<and> Vector_move_construct this other h w = Ok () (h(this := h other, other := Vector_default), w)"
  by (simp add: Vector_move_assign_def Vector_move_construct_def Vector_Swap_exchange)

theorem move_exchanges_witness:
  "(1::nat) \<noteq> 0
   \<and> Vector_move_assign 1 0 two_vectors start
       = Ok () (two_vectors(1 := two_vectors 0, 0 := two_vectors 1), start)
   \<and> Vector_move_construct 1 0 two_vectors start
       = Ok () (two_vectors(1 := two_vectors 0, 0 := Vector_default), start)"
  using move_exchanges [of 1 0 two_vectors start] by simp


section \<open>The standard algorithms on blocks\<close>

lemma attempt_eq:
  "attempt env k w = (fails env k (tick w),
      \<lparr>tick = Suc (tick w), trace = trace w @ [if fails env k (tick w) then Threw k else Did k]\<rparr>)"
  by (simp add: attempt_def fails_def Let_def)

lemma did_0 [simp]: "did k 0 w = w"
  by (simp add: did_def)

lemma destroyed_0 [simp]: "destroyed 0 w = w"
  by (simp add: destroyed_def)

lemma did_did: "did k n (did k m w) = did k (m + n) w"
  by (simp add: did_def replicate_add)

lemma did_Suc: "did k n (did k (Suc 0) w) = did k (Suc n) w"
  by (simp add: did_def replicate_app_Cons_same)

lemma destroyed_destroyed: "destroyed n (destroyed m w) = destroyed (m + n) w"
  by (simp add: destroyed_def replicate_add)

lemma tick_did [simp]: "tick (did k n w) = tick w + n"
  by (simp add: did_def)

lemma tick_destroyed [simp]: "tick (destroyed n w) = tick w"
  by (simp add: destroyed_def)

lemma trace_did: "trace (did k n w) = trace w @ replicate n (Did k)"
  by (simp add: did_def)

lemma trace_destroyed: "trace (destroyed n w) = trace w @ replicate n Destroyed"
  by (simp add: destroyed_def)

lemma attempt_ok: "\<not> fails env k (tick w) \<Longrightarrow> attempt env k w = (False, did k 1 w)"
  by (simp add: attempt_eq did_def)

lemma attempt_fail: "fails env k (tick w) \<Longrightarrow> fst (attempt env k w) = True"
  by (simp add: attempt_eq)

lemma slot_Some_iff: "slot buf i = Some x \<longleftrightarrow> i < length buf \<and> buf ! i = Some x"
  by (simp add: slot_def)

lemma slot_nth: "i < length buf \<Longrightarrow> slot buf i = buf ! i"
  by (simp add: slot_def)

subsection \<open>Destruction\<close>

lemma destroy_at_length: "length (fst (destroy_at buf i w)) = length buf"
  by (simp add: destroy_at_def split: option.splits)

lemma destroy_at_nth:
  "j < length buf \<Longrightarrow> fst (destroy_at buf i w) ! j = (if j = i then None else buf ! j)"
  by (auto simp: destroy_at_def slot_def nth_list_update split: option.splits if_splits)

lemma destroy_n_length [simp]: "length (fst (destroy_n buf first n w)) = length buf"
proof (induction n arbitrary: buf first w)
  case 0
  show ?case by simp
next
  case (Suc n)
  show ?case
    using Suc.IH [of "fst (destroy_at buf first w)" "Suc first" "snd (destroy_at buf first w)"]
    by (simp add: case_prod_beta destroy_at_length)
qed

lemma destroy_n_nth:
  "j < length buf \<Longrightarrow>
   fst (destroy_n buf first n w) ! j = (if first \<le> j \<and> j < first + n then None else buf ! j)"
proof (induction n arbitrary: buf first w)
  case 0
  show ?case by auto
next
  case (Suc n)
  have "j < length (fst (destroy_at buf first w))"
    using Suc.prems by (simp add: destroy_at_length)
  from Suc.IH [OF this, of "Suc first" "snd (destroy_at buf first w)"] Suc.prems
  show ?case
    by (auto simp: case_prod_beta destroy_at_nth)
qed

lemma destroy_at_live:
  "slot buf i = Some x \<Longrightarrow> destroy_at buf i w = (buf[i := None], destroyed 1 w)"
  by (simp add: destroy_at_def log_event_def destroyed_def)

lemma destroy_n_world:
  "(\<forall>i. first \<le> i \<and> i < first + n \<longrightarrow> slot buf i \<noteq> None) \<Longrightarrow>
   snd (destroy_n buf first n w) = destroyed n w"
proof (induction n arbitrary: buf first w)
  case 0
  show ?case by simp
next
  case (Suc n)
  from Suc.prems have "slot buf first \<noteq> None" by simp
  then obtain x where x: "slot buf first = Some x" by blast
  have "\<forall>i. Suc first \<le> i \<and> i < Suc first + n \<longrightarrow> slot (buf[first := None]) i \<noteq> None"
  proof (intro allI impI)
    fix i assume i: "Suc first \<le> i \<and> i < Suc first + n"
    then have "slot buf i \<noteq> None" using Suc.prems by simp
    with i show "slot (buf[first := None]) i \<noteq> None" by (auto simp: slot_def split: if_splits)
  qed
  from Suc.IH [OF this] x show ?case
    by (simp add: destroy_at_live destroyed_destroyed)
qed

subsection \<open>Blocks with a live prefix\<close>

lemma buffer_eqI:
  assumes "length b = length ys + k"
    and "\<And>j. j < length ys \<Longrightarrow> b ! j = Some (ys ! j)"
    and "\<And>j. length ys \<le> j \<Longrightarrow> j < length ys + k \<Longrightarrow> b ! j = None"
  shows "b = map Some ys @ replicate k None"
proof (rule nth_equalityI)
  show "length b = length (map Some ys @ replicate k None)" using assms(1) by simp
next
  fix i assume "i < length b"
  with assms show "b ! i = (map Some ys @ replicate k None) ! i"
    by (cases "i < length ys") (simp_all add: nth_append)
qed

lemma prefix_nth:
  "j < length xs + k \<Longrightarrow> (map Some xs @ replicate k None) ! j = (if j < length xs then Some (xs ! j) else None)"
  by (simp add: nth_append)

lemma prefix_slot:
  "slot (map Some xs @ replicate k None) j = (if j < length xs then Some (xs ! j) else None)"
  by (simp add: slot_def nth_append)

text \<open>Destroying the live elements from \<open>f\<close> on.\<close>

lemma destroy_n_suffix:
  assumes "f \<le> length xs"
  shows "destroy_n (map Some xs @ replicate k None) f (length xs - f) w
           = (map Some (take f xs) @ replicate (k + (length xs - f)) None, destroyed (length xs - f) w)"
proof -
  let ?b = "map Some xs @ replicate k None"
  have w: "snd (destroy_n ?b f (length xs - f) w) = destroyed (length xs - f) w"
    by (rule destroy_n_world) (auto simp: prefix_slot)
  have b: "fst (destroy_n ?b f (length xs - f) w) = map Some (take f xs) @ replicate (k + (length xs - f)) None"
    using assms by (intro buffer_eqI) (auto simp: destroy_n_nth prefix_nth)
  from w b show ?thesis by (simp add: prod_eq_iff)
qed


subsection \<open>Construction\<close>

lemma construct_at_fresh:
  assumes "construct_at env k x buf i w = (fail, b1, w1)" "\<not> fail" "i < length buf" "buf ! i = None"
  shows "b1 = buf[i := Some x] \<and> w1 = did k 1 w"
  using assms
  by (auto simp: construct_at_def attempt_eq did_def split: if_splits)

lemma construct_at_failed:
  assumes "construct_at env k x buf i w = (fail, b1, w1)" "fail"
  shows "b1 = buf"
  using assms
  by (auto simp: construct_at_def attempt_eq split: if_splits)

lemma uninit_copy_Ok:
  assumes "uninit_copy env src s n dst d0 d w = Ok u (dst', w')"
    and "\<forall>i<n. slot src (s + i) \<noteq> None"
    and "\<forall>i<n. d + i < length dst \<and> dst ! (d + i) = None"
  shows "length dst' = length dst
       \<and> (\<forall>j<length dst. dst' ! j = (if d \<le> j \<and> j < d + n then src ! (s + (j - d)) else dst ! j))
       \<and> w' = did CopyCtor n w"
  using assms
proof (induction n arbitrary: s dst d w)
  case 0
  then show ?case by auto
next
  case (Suc n)
  from Suc.prems(2) have "slot src (s + 0) \<noteq> None" by blast
  then obtain x where x: "slot src s = Some x" by auto
  then have sx: "src ! s = Some x" by (simp add: slot_Some_iff)
  from Suc.prems(3) have d: "d < length dst" "dst ! d = None" by force+
  obtain fail dst1 w1 where c: "construct_at env CopyCtor x dst d w = (fail, dst1, w1)"
    by (cases "construct_at env CopyCtor x dst d w") auto
  from Suc.prems(1) x c have nf: "\<not> fail"
    by (auto split: if_splits)
  from construct_at_fresh [OF c nf d] have d1: "dst1 = dst[d := Some x]" and w1: "w1 = did CopyCtor 1 w"
    by simp_all
  from Suc.prems(1) x c nf have r: "uninit_copy env src (Suc s) n dst1 d0 (Suc d) w1 = Ok u (dst', w')"
    by simp
  have p2: "\<forall>i<n. slot src (Suc s + i) \<noteq> None"
    using Suc.prems(2) by (metis Suc_less_eq add_Suc_right add_Suc)
  have p3: "\<forall>i<n. Suc d + i < length dst1 \<and> dst1 ! (Suc d + i) = None"
  proof (intro allI impI)
    fix i assume "i < n"
    then have "Suc i < Suc n" by simp
    with Suc.prems(3) have "d + Suc i < length dst \<and> dst ! (d + Suc i) = None" by blast
    then show "Suc d + i < length dst1 \<and> dst1 ! (Suc d + i) = None"
      by (simp add: d1)
  qed
  from Suc.IH [OF r p2 p3]
  have len: "length dst' = length dst1"
    and nth: "\<forall>j<length dst1. dst' ! j = (if Suc d \<le> j \<and> j < Suc d + n then src ! (Suc s + (j - Suc d)) else dst1 ! j)"
    and w': "w' = did CopyCtor n w1"
    by simp_all
  have "\<forall>j<length dst. dst' ! j = (if d \<le> j \<and> j < d + Suc n then src ! (s + (j - d)) else dst ! j)"
  proof (intro allI impI)
    fix j assume j: "j < length dst"
    show "dst' ! j = (if d \<le> j \<and> j < d + Suc n then src ! (s + (j - d)) else dst ! j)"
    proof (cases "j = d")
      case True
      with nth j d1 sx show ?thesis by simp
    next
      case False
      then have "Suc s + (j - Suc d) = s + (j - d)" if "d \<le> j" using that by simp
      with nth j d1 False show ?thesis by auto
    qed
  qed
  with len d1 w' w1 show ?case by (simp add: did_Suc)
qed

lemma uninit_move_Ok:
  assumes "uninit_move env src s n dst d0 d w = Ok u ((src', dst'), w')"
    and "\<forall>i<n. slot src (s + i) \<noteq> None"
    and "\<forall>i<n. d + i < length dst \<and> dst ! (d + i) = None"
  shows "length dst' = length dst
       \<and> (\<forall>j<length dst. dst' ! j = (if d \<le> j \<and> j < d + n then src ! (s + (j - d)) else dst ! j))
       \<and> length src' = length src
       \<and> (\<forall>j<length src. src' ! j = (if s \<le> j \<and> j < s + n then map_option (moved_from env) (src ! j) else src ! j))
       \<and> w' = did MoveCtor n w"
  using assms
proof (induction n arbitrary: s src dst d w)
  case 0
  then show ?case by auto
next
  case (Suc n)
  from Suc.prems(2) have "slot src (s + 0) \<noteq> None" by blast
  then obtain x where x: "slot src s = Some x" by auto
  then have sx: "src ! s = Some x" and sl: "s < length src" by (simp_all add: slot_Some_iff)
  from Suc.prems(3) have d: "d < length dst" "dst ! d = None" by force+
  obtain fail dst1 w1 where c: "construct_at env MoveCtor x dst d w = (fail, dst1, w1)"
    by (cases "construct_at env MoveCtor x dst d w") auto
  from Suc.prems(1) x c have nf: "\<not> fail"
    by (auto split: if_splits prod.splits)
  from construct_at_fresh [OF c nf d] have d1: "dst1 = dst[d := Some x]" and w1: "w1 = did MoveCtor 1 w"
    by simp_all
  let ?src1 = "src[s := Some (moved_from env x)]"
  from Suc.prems(1) x c nf
  have r: "uninit_move env ?src1 (Suc s) n dst1 d0 (Suc d) w1 = Ok u ((src', dst'), w')"
    by simp
  have p2: "\<forall>i<n. slot ?src1 (Suc s + i) \<noteq> None"
  proof (intro allI impI)
    fix i assume "i < n"
    then have "Suc i < Suc n" by simp
    with Suc.prems(2) have "slot src (s + Suc i) \<noteq> None" by blast
    then show "slot ?src1 (Suc s + i) \<noteq> None"
      by (auto simp: slot_def split: if_splits)
  qed
  have p3: "\<forall>i<n. Suc d + i < length dst1 \<and> dst1 ! (Suc d + i) = None"
  proof (intro allI impI)
    fix i assume "i < n"
    then have "Suc i < Suc n" by simp
    with Suc.prems(3) have "d + Suc i < length dst \<and> dst ! (d + Suc i) = None" by blast
    then show "Suc d + i < length dst1 \<and> dst1 ! (Suc d + i) = None"
      by (simp add: d1)
  qed
  from Suc.IH [OF r p2 p3]
  have len: "length dst' = length dst1"
    and nth: "\<forall>j<length dst1. dst' ! j = (if Suc d \<le> j \<and> j < Suc d + n then ?src1 ! (Suc s + (j - Suc d)) else dst1 ! j)"
    and slen: "length src' = length ?src1"
    and snth: "\<forall>j<length ?src1. src' ! j = (if Suc s \<le> j \<and> j < Suc s + n then map_option (moved_from env) (?src1 ! j) else ?src1 ! j)"
    and w': "w' = did MoveCtor n w1"
    by simp_all
  have a: "\<forall>j<length dst. dst' ! j = (if d \<le> j \<and> j < d + Suc n then src ! (s + (j - d)) else dst ! j)"
  proof (intro allI impI)
    fix j assume j: "j < length dst"
    show "dst' ! j = (if d \<le> j \<and> j < d + Suc n then src ! (s + (j - d)) else dst ! j)"
    proof (cases "j = d")
      case True
      with nth j d1 sx show ?thesis by simp
    next
      case False
      then have "Suc s + (j - Suc d) = s + (j - d)" if "d \<le> j" using that by simp
      with nth j d1 False show ?thesis by auto
    qed
  qed
  have b: "\<forall>j<length src. src' ! j = (if s \<le> j \<and> j < s + Suc n then map_option (moved_from env) (src ! j) else src ! j)"
  proof (intro allI impI)
    fix j assume j: "j < length src"
    show "src' ! j = (if s \<le> j \<and> j < s + Suc n then map_option (moved_from env) (src ! j) else src ! j)"
    proof (cases "j = s")
      case True
      with snth j sx show ?thesis by simp
    next
      case False
      with snth j show ?thesis by auto
    qed
  qed
  from a b len slen d1 w' w1 show ?case by (simp add: did_Suc)
qed

lemma uninit_value_construct_Ok:
  assumes "uninit_value_construct env n dst d0 d w = Ok u (dst', w')"
    and "\<forall>i<n. d + i < length dst \<and> dst ! (d + i) = None"
  shows "length dst' = length dst
       \<and> (\<forall>j<length dst. dst' ! j = (if d \<le> j \<and> j < d + n then Some (value_init env) else dst ! j))
       \<and> w' = did ValueCtor n w"
  using assms
proof (induction n arbitrary: dst d w)
  case 0
  then show ?case by auto
next
  case (Suc n)
  from Suc.prems(2) have d: "d < length dst" "dst ! d = None" by force+
  obtain fail dst1 w1 where c: "construct_at env ValueCtor (value_init env) dst d w = (fail, dst1, w1)"
    by (cases "construct_at env ValueCtor (value_init env) dst d w") auto
  from Suc.prems(1) c have nf: "\<not> fail"
    by (auto split: if_splits)
  from construct_at_fresh [OF c nf d] have d1: "dst1 = dst[d := Some (value_init env)]" and w1: "w1 = did ValueCtor 1 w"
    by simp_all
  from Suc.prems(1) c nf have r: "uninit_value_construct env n dst1 d0 (Suc d) w1 = Ok u (dst', w')"
    by simp
  have p3: "\<forall>i<n. Suc d + i < length dst1 \<and> dst1 ! (Suc d + i) = None"
  proof (intro allI impI)
    fix i assume "i < n"
    then have "Suc i < Suc n" by simp
    with Suc.prems(2) have "d + Suc i < length dst \<and> dst ! (d + Suc i) = None" by blast
    then show "Suc d + i < length dst1 \<and> dst1 ! (Suc d + i) = None"
      by (simp add: d1)
  qed
  from Suc.IH [OF r p3]
  have len: "length dst' = length dst1"
    and nth: "\<forall>j<length dst1. dst' ! j = (if Suc d \<le> j \<and> j < Suc d + n then Some (value_init env) else dst1 ! j)"
    and w': "w' = did ValueCtor n w1"
    by simp_all
  have "\<forall>j<length dst. dst' ! j = (if d \<le> j \<and> j < d + Suc n then Some (value_init env) else dst ! j)"
  proof (intro allI impI)
    fix j assume j: "j < length dst"
    show "dst' ! j = (if d \<le> j \<and> j < d + Suc n then Some (value_init env) else dst ! j)"
    proof (cases "j = d")
      case True
      with nth j d1 show ?thesis by simp
    next
      case False
      with nth j d1 show ?thesis by auto
    qed
  qed
  with len d1 w' w1 show ?case by (simp add: did_Suc)
qed

section \<open>Calls in which no operation fails\<close>

text \<open>When no operation fails, every algorithm on blocks returns.\<close>

lemma attempt_quiet: "quiet env \<Longrightarrow> attempt env k w = (False, did k 1 w)"
  by (simp add: attempt_ok quiet_def)

lemma construct_at_quiet:
  "quiet env \<Longrightarrow> \<exists>w1. construct_at env k x buf i w = (False, buf[i := Some x], w1)"
  by (simp add: construct_at_def attempt_quiet)

lemma uninit_copy_quiet:
  "quiet env \<Longrightarrow> \<exists>b w'. uninit_copy env src s n dst d0 d w = Ok () (b, w')"
proof (induction n arbitrary: s dst d w)
  case 0
  show ?case by simp
next
  case (Suc n)
  show ?case
  proof (cases "slot src s")
    case None
    with Suc.IH [OF Suc.prems] show ?thesis by simp
  next
    case (Some x)
    from construct_at_quiet [OF Suc.prems] obtain w1 where
      "construct_at env CopyCtor x dst d w = (False, dst[d := Some x], w1)" by blast
    with Some Suc.IH [OF Suc.prems] show ?thesis by simp
  qed
qed

lemma uninit_move_quiet:
  "quiet env \<Longrightarrow> \<exists>a b w'. uninit_move env src s n dst d0 d w = Ok () ((a, b), w')"
proof (induction n arbitrary: s src dst d w)
  case 0
  show ?case by simp
next
  case (Suc n)
  show ?case
  proof (cases "slot src s")
    case None
    with Suc.IH [OF Suc.prems] show ?thesis by simp
  next
    case (Some x)
    from construct_at_quiet [OF Suc.prems] obtain w1 where
      "construct_at env MoveCtor x dst d w = (False, dst[d := Some x], w1)" by blast
    with Some Suc.IH [OF Suc.prems] show ?thesis by simp
  qed
qed

lemma uninit_value_construct_quiet:
  "quiet env \<Longrightarrow> \<exists>b w'. uninit_value_construct env n dst d0 d w = Ok () (b, w')"
proof (induction n arbitrary: dst d w)
  case 0
  show ?case by simp
next
  case (Suc n)
  from construct_at_quiet [OF Suc.prems] obtain w1 where
    "construct_at env ValueCtor (value_init env) dst d w = (False, dst[d := Some (value_init env)], w1)"
    by blast
  with Suc.IH [OF Suc.prems] show ?case by simp
qed

lemma move_assign_within_quiet:
  "quiet env \<Longrightarrow> \<exists>b w'. move_assign_within env buf s d w = (False, b, w')"
  by (simp add: move_assign_within_def attempt_quiet split: option.splits)

lemma move_backward_quiet:
  "quiet env \<Longrightarrow> \<exists>b w'. move_backward env buf first n d_last w = Ok () (b, w')"
proof (induction n arbitrary: buf d_last w)
  case 0
  show ?case by simp
next
  case (Suc n)
  from move_assign_within_quiet [OF Suc.prems] obtain b1 w1 where
    "move_assign_within env buf (first + n) (d_last - 1) w = (False, b1, w1)" by blast
  with Suc.IH [OF Suc.prems] show ?case by simp
qed

lemma RawMemory_new_quiet:
  "quiet env \<Longrightarrow> \<exists>d w1. RawMemory_new env n w = Ok d w1 \<and> m_capacity d = n"
  by (simp add: RawMemory_new_def Allocate_def attempt_quiet Let_def)

lemma Reserve_quiet:
  assumes "quiet env"
  shows "\<exists>v' w'. Reserve env n v w = Ok () (v', w')"
proof (cases "n \<le> m_capacity (m_data v)")
  case True
  then show ?thesis by (simp add: Reserve_def)
next
  case False
  from RawMemory_new_quiet [OF assms] obtain nd w1 where nd: "RawMemory_new env n w = Ok nd w1"
    by blast
  show ?thesis
  proof (cases "use_move env")
    case True
    from uninit_move_quiet [OF assms] obtain a b w2 where
      "uninitialized_move_n env (m_buffer (m_data v)) 0 (m_size v) (m_buffer nd) 0 w1 = Ok () ((a, b), w2)"
      unfolding uninitialized_move_n_def by blast
    with False nd True show ?thesis
      by (cases "install_new_data (set_buffer a v) (nd\<lparr>m_buffer := b\<rparr>) w2") (simp add: Reserve_def)
  next
    case nm: False
    from uninit_copy_quiet [OF assms] obtain b w2 where
      "uninitialized_copy_n env (m_buffer (m_data v)) 0 (m_size v) (m_buffer nd) 0 w1 = Ok () (b, w2)"
      unfolding uninitialized_copy_n_def by blast
    with False nd nm show ?thesis
      by (cases "install_new_data v (nd\<lparr>m_buffer := b\<rparr>) w2") (simp add: Reserve_def)
  qed
qed

lemma Resize_quiet:
  assumes "quiet env"
  shows "\<exists>v' w'. Resize env n v w = Ok () (v', w')"
proof (cases "n < m_size v")
  case True
  then show ?thesis by (simp add: Resize_def split: prod.splits)
next
  case False
  from Reserve_quiet [OF assms] obtain v1 w1 where r: "Reserve env n v w = Ok () (v1, w1)" by blast
  from uninit_value_construct_quiet [OF assms] obtain b w2 where
    "uninitialized_value_construct_n env (m_buffer (m_data v1)) (m_size v1) (n - m_size v1) w1 = Ok () (b, w2)"
    unfolding uninitialized_value_construct_n_def by blast
  with False r show ?thesis by (simp add: Resize_def)
qed

text \<open>So do the insertions, unless an \<^verbatim>\<open>assert\<close> fails.\<close>

lemma install_new_data_fields:
  "install_new_data v nd w = (v1, w1) \<Longrightarrow>
   m_capacity (m_data v1) = m_capacity nd \<and> m_size v1 = m_size v"
  by (auto simp: install_new_data_def RawMemory_Swap_def split: prod.splits)

lemma grow_no_wrap:
  "c < 2 ^ 63 \<Longrightarrow> (if c = 0 then 1 else (c * 2) mod size_t_max) = max 1 (c * 2)"
  by (simp add: size_t_max_def max_def)

lemma EmplaceBack_return_quiet:
  "m_size v < m_capacity (m_data v) \<Longrightarrow> \<exists>v' w'. EmplaceBack_return v w = Ok (m_size v) (v', w')"
  by (simp add: EmplaceBack_return_def Let_def)

lemma EmplaceBack_quiet:
  assumes "quiet env" "m_size v \<le> Capacity v" "Capacity v < 2 ^ 63"
  shows "\<exists>v' w'. EmplaceBack env ctor x v w = Ok (m_size v) (v', w')"
proof (cases "m_size v = Capacity v")
  case True
  let ?c = "if m_size v = 0 then 1 else (Capacity v * 2) mod size_t_max"
  from True assms(3) have c: "?c = max 1 (Capacity v * 2)" using grow_no_wrap [of "Capacity v"] by simp
  from RawMemory_new_quiet [OF assms(1)] obtain nd w1 where
    nd: "RawMemory_new env ?c w = Ok nd w1" and cap: "m_capacity nd = ?c" by blast
  from construct_at_quiet [OF assms(1)] obtain w2 where
    ca: "construct_at env ctor x (m_buffer nd) (m_size v) w1 = (False, (m_buffer nd)[m_size v := Some x], w2)"
    by blast
  let ?nb = "(m_buffer nd)[m_size v := Some x]"
  have lt: "m_size v < m_capacity nd" using cap c True by (simp add: max_def)
  show ?thesis
  proof (cases "use_move env")
    case um: True
    from uninit_move_quiet [OF assms(1)] obtain a b w3 where
      m: "uninitialized_move_n env (m_buffer (m_data v)) 0 (m_size v) ?nb 0 w2 = Ok () ((a, b), w3)"
      unfolding uninitialized_move_n_def by blast
    obtain v1 w4 where i: "install_new_data (set_buffer a v) (nd\<lparr>m_buffer := b\<rparr>) w3 = (v1, w4)"
      by (cases "install_new_data (set_buffer a v) (nd\<lparr>m_buffer := b\<rparr>) w3") auto
    from install_new_data_fields [OF i] lt have "m_size v1 < m_capacity (m_data v1)" "m_size v1 = m_size v"
      by (simp_all add: set_buffer_def)
    with EmplaceBack_return_quiet [of v1 w4] True nd ca um m i show ?thesis
      by (simp add: EmplaceBack_def)
  next
    case um: False
    from uninit_copy_quiet [OF assms(1)] obtain b w3 where
      m: "uninitialized_copy_n env (m_buffer (m_data v)) 0 (m_size v) ?nb 0 w2 = Ok () (b, w3)"
      unfolding uninitialized_copy_n_def by blast
    obtain v1 w4 where i: "install_new_data v (nd\<lparr>m_buffer := b\<rparr>) w3 = (v1, w4)"
      by (cases "install_new_data v (nd\<lparr>m_buffer := b\<rparr>) w3") auto
    from install_new_data_fields [OF i] lt have "m_size v1 < m_capacity (m_data v1)" "m_size v1 = m_size v"
      by simp_all
    with EmplaceBack_return_quiet [of v1 w4] True nd ca um m i show ?thesis
      by (simp add: EmplaceBack_def)
  qed
next
  case False
  with assms(2) have lt: "m_size v < Capacity v" by simp
  from construct_at_quiet [OF assms(1)] obtain w1 where
    ca: "construct_at env ctor x (m_buffer (m_data v)) (m_size v) w = (False, (m_buffer (m_data v))[m_size v := Some x], w1)"
    by blast
  from lt have "m_size (set_buffer ((m_buffer (m_data v))[m_size v := Some x]) v)
      < m_capacity (m_data (set_buffer ((m_buffer (m_data v))[m_size v := Some x]) v))"
    by (simp add: set_buffer_def Capacity_def)
  from EmplaceBack_return_quiet [OF this, of w1] False lt ca show ?thesis
    by (simp add: EmplaceBack_def set_buffer_def)
qed

lemma Emplace_realloc_quiet:
  assumes "quiet env"
  shows "\<exists>v' w'. Emplace_realloc env count ctor x v w = Ok count (v', w')"
proof -
  let ?c = "if m_size v = 0 then 1 else (Capacity v * 2) mod size_t_max"
  from RawMemory_new_quiet [OF assms(1)] obtain nd w1 where
    nd: "RawMemory_new env ?c w = Ok nd w1" by blast
  from construct_at_quiet [OF assms(1)] obtain w2 where
    ca: "construct_at env ctor x (m_buffer nd) count w1 = (False, (m_buffer nd)[count := Some x], w2)"
    by blast
  let ?nb = "(m_buffer nd)[count := Some x]"
  show ?thesis
  proof (cases "use_move env")
    case um: True
    from uninit_move_quiet [OF assms(1)] obtain a b w3 where
      m: "uninitialized_move_n env (m_buffer (m_data v)) 0 count ?nb 0 w2 = Ok () ((a, b), w3)"
      unfolding uninitialized_move_n_def by blast
    from uninit_move_quiet [OF assms(1)] obtain a1 b1 w4 where
      m1: "uninitialized_move_n env a count (m_size v - count) b (count + 1) w3 = Ok () ((a1, b1), w4)"
      unfolding uninitialized_move_n_def by blast
    from nd ca um m m1 show ?thesis
      by (cases "install_new_data (set_buffer a1 v) (nd\<lparr>m_buffer := b1\<rparr>) w4")
        (simp add: Emplace_realloc_def Emplace_return_def)
  next
    case um: False
    from uninit_copy_quiet [OF assms(1)] obtain b w3 where
      m: "uninitialized_copy_n env (m_buffer (m_data v)) 0 count ?nb 0 w2 = Ok () (b, w3)"
      unfolding uninitialized_copy_n_def by blast
    from uninit_copy_quiet [OF assms(1)] obtain b1 w4 where
      m1: "uninitialized_copy_n env (m_buffer (m_data v)) count (m_size v - count) b (count + 1) w3 = Ok () (b1, w4)"
      unfolding uninitialized_copy_n_def by blast
    from nd ca um m m1 show ?thesis
      by (cases "install_new_data v (nd\<lparr>m_buffer := b1\<rparr>) w4")
        (simp add: Emplace_realloc_def Emplace_return_def)
  qed
qed

lemma Emplace_shift_quiet:
  assumes "quiet env" "count < m_size v" "m_size v \<le> m_capacity (m_data v)"
  shows "\<exists>v' w'. Emplace_shift env count ctor x v w = Ok count (v', w')"
proof -
  have a: "attempt env ctor w = (False, did ctor 1 w)" by (rule attempt_quiet [OF assms(1)])
  have "\<exists>b1 w2. move_construct_within env (m_buffer (m_data v)) (m_size v - 1) (m_size v) (did ctor 1 w) = (False, b1, w2)"
  proof (cases "slot (m_buffer (m_data v)) (m_size v - 1)")
    case None
    then show ?thesis by (simp add: move_construct_within_def)
  next
    case (Some y)
    from construct_at_quiet [OF assms(1)] obtain w2 where
      "construct_at env MoveCtor y (m_buffer (m_data v)) (m_size v) (did ctor 1 w)
         = (False, (m_buffer (m_data v))[m_size v := Some y], w2)" by blast
    with Some show ?thesis by (simp add: move_construct_within_def)
  qed
  then obtain b1 w2 where
    mc: "move_construct_within env (m_buffer (m_data v)) (m_size v - 1) (m_size v) (did ctor 1 w) = (False, b1, w2)"
    by blast
  from move_backward_quiet [OF assms(1)] obtain b2 w3 where
    mb: "move_backward env b1 count (m_size v - 1 - count) (m_size v) w2 = Ok () (b2, w3)" by blast
  have "\<exists>b3 w4. assign_at env MoveAsg x b2 count w3 = (False, b3, w4)"
    by (simp add: assign_at_def attempt_quiet [OF assms(1)] split: option.splits)
  then obtain b3 w4 where as: "assign_at env MoveAsg x b2 count w3 = (False, b3, w4)" by blast
  from assms(2,3) a mc mb as show ?thesis
    by (simp add: Emplace_shift_def Emplace_return_def)
qed

lemma Emplace_quiet:
  assumes "quiet env" "m_size v \<le> Capacity v" "0 \<le> pos" "pos \<le> int (m_size v)"
  shows "\<exists>v' w'. Emplace env pos ctor x v w = Ok (nat pos) (v', w')"
proof (cases "m_size v < Capacity v")
  case False
  with assms(3,4) Emplace_realloc_quiet [OF assms(1), of "nat pos" ctor x v w] show ?thesis
    by (simp add: Emplace_def Let_def)
next
  case True
  show ?thesis
  proof (cases "pos = int (m_size v)")
    case e: True
    from construct_at_quiet [OF assms(1)] obtain w1 where
      "construct_at env ctor x (m_buffer (m_data v)) (m_size v) w
         = (False, (m_buffer (m_data v))[m_size v := Some x], w1)" by blast
    with True e show ?thesis by (simp add: Emplace_def Let_def Emplace_return_def)
  next
    case e: False
    with assms(3,4) have "nat pos < m_size v" by simp
    from Emplace_shift_quiet [OF assms(1) this, of ctor x w] assms(2-4) True e show ?thesis
      by (simp add: Emplace_def Let_def Capacity_def)
  qed
qed

section \<open>Growth policy\<close>

lemma RawMemory_new_Ok: "RawMemory_new env n w = Ok d w1 \<Longrightarrow> m_capacity d = n"
  by (auto simp: RawMemory_new_def Allocate_def split: outcome.splits if_splits prod.splits)

lemma EmplaceBack_return_capacity:
  "EmplaceBack_return v w = Ok r (v', w') \<Longrightarrow> m_capacity (m_data v') = m_capacity (m_data v)"
  by (auto simp: EmplaceBack_return_def Let_def split: if_splits)

lemma EmplaceBack_grow_capacity:
  assumes "m_size v = Capacity v" "Capacity v < 2 ^ 63" "EmplaceBack env ctor x v w = Ok r (v', w')"
  shows "Capacity v' = max 1 (Capacity v * 2)"
  using assms(3) unfolding EmplaceBack_def
  using assms(1,2)
  apply (simp add: grow_no_wrap split: outcome.splits prod.splits if_splits)
   apply (auto simp: Capacity_def
      dest!: RawMemory_new_Ok install_new_data_fields EmplaceBack_return_capacity)
  done

lemma Emplace_grow_capacity:
  assumes "m_size v = Capacity v" "Capacity v < 2 ^ 63" "Emplace env pos ctor x v w = Ok r (v', w')"
  shows "Capacity v' = max 1 (Capacity v * 2)"
  using assms(3) unfolding Emplace_def Emplace_realloc_def
  using assms(1,2)
  apply (simp add: grow_no_wrap Let_def split: outcome.splits prod.splits if_splits)
   apply (auto simp: Capacity_def Emplace_return_def
      dest!: RawMemory_new_Ok install_new_data_fields)
  done

lemma PushBack_Ok: "PushBack env ctor x v w = Ok u s \<longleftrightarrow> (\<exists>r. EmplaceBack env ctor x v w = Ok r s)"
  by (auto simp: PushBack_def split: outcome.splits)

lemma PushBack_Throw: "PushBack env ctor x v w = Throw e s \<longleftrightarrow> EmplaceBack env ctor x v w = Throw e s"
  by (auto simp: PushBack_def split: outcome.splits)

text \<open>
  C6.  On a vector whose length equals its capacity (a capacity below \<open>2 ^ 63\<close>, so that
  twice the capacity is a \<^verbatim>\<open>size_t\<close>), a \<^verbatim>\<open>PushBack\<close>, \<^verbatim>\<open>EmplaceBack\<close>, \<^verbatim>\<open>Emplace\<close> or
  \<^verbatim>\<open>Insert\<close> that returns leaves the vector in a buffer of capacity
  \<open>max 1 (2 * old capacity)\<close>; and when no operation fails, each of them returns (\<^verbatim>\<open>Emplace\<close>
  and \<^verbatim>\<open>Insert\<close> for a position inside the vector or at its end).
\<close>

theorem growth_policy:
  assumes "m_size v = Capacity v" and "Capacity v < 2 ^ 63"
  shows "(EmplaceBack env ctor x v w = Ok r (v', w') \<longrightarrow> Capacity v' = max 1 (Capacity v * 2))
       \<and> (PushBack env ctor x v w = Ok u (v', w') \<longrightarrow> Capacity v' = max 1 (Capacity v * 2))
       \<and> (Emplace env pos ctor x v w = Ok r (v', w') \<longrightarrow> Capacity v' = max 1 (Capacity v * 2))
       \<and> (Insert env pos ctor x v w = Ok r (v', w') \<longrightarrow> Capacity v' = max 1 (Capacity v * 2))
       \<and> (quiet env \<longrightarrow>
            (\<exists>v1 w1. EmplaceBack env ctor x v w = Ok (m_size v) (v1, w1)
                \<and> Capacity v1 = max 1 (Capacity v * 2))
          \<and> (\<exists>v1 w1. PushBack env ctor x v w = Ok () (v1, w1)
                \<and> Capacity v1 = max 1 (Capacity v * 2))
          \<and> (0 \<le> pos \<longrightarrow> pos \<le> int (m_size v) \<longrightarrow>
               (\<exists>v1 w1. Emplace env pos ctor x v w = Ok (nat pos) (v1, w1)
                   \<and> Capacity v1 = max 1 (Capacity v * 2))
             \<and> (\<exists>v1 w1. Insert env pos ctor x v w = Ok (nat pos) (v1, w1)
                   \<and> Capacity v1 = max 1 (Capacity v * 2))))"
proof (intro conjI impI)
  show "Capacity v' = max 1 (Capacity v * 2)" if "EmplaceBack env ctor x v w = Ok r (v', w')"
    using EmplaceBack_grow_capacity [OF assms that] .
  show "Capacity v' = max 1 (Capacity v * 2)" if "PushBack env ctor x v w = Ok u (v', w')"
    using that EmplaceBack_grow_capacity [OF assms] by (auto simp: PushBack_Ok)
  show "Capacity v' = max 1 (Capacity v * 2)" if "Emplace env pos ctor x v w = Ok r (v', w')"
    using Emplace_grow_capacity [OF assms that] .
  show "Capacity v' = max 1 (Capacity v * 2)" if "Insert env pos ctor x v w = Ok r (v', w')"
    using that Emplace_grow_capacity [OF assms] by (simp add: Insert_def)
next
  assume q: "quiet env"
  from assms(1) have le: "m_size v \<le> Capacity v" by simp
  from EmplaceBack_quiet [OF q le assms(2)] obtain v1 w1 where
    e: "EmplaceBack env ctor x v w = Ok (m_size v) (v1, w1)" by blast
  from EmplaceBack_grow_capacity [OF assms e] have c: "Capacity v1 = max 1 (Capacity v * 2)" .
  from e c show "\<exists>v1 w1. EmplaceBack env ctor x v w = Ok (m_size v) (v1, w1)
      \<and> Capacity v1 = max 1 (Capacity v * 2)" by blast
  from e c show "\<exists>v1 w1. PushBack env ctor x v w = Ok () (v1, w1)
      \<and> Capacity v1 = max 1 (Capacity v * 2)" by (simp add: PushBack_def)
next
  assume q: "quiet env" and p: "0 \<le> pos" "pos \<le> int (m_size v)"
  from assms(1) have le: "m_size v \<le> Capacity v" by simp
  from Emplace_quiet [OF q le p] obtain v1 w1 where
    e: "Emplace env pos ctor x v w = Ok (nat pos) (v1, w1)" by blast
  from Emplace_grow_capacity [OF assms e] have c: "Capacity v1 = max 1 (Capacity v * 2)" .
  from e c show "\<exists>v1 w1. Emplace env pos ctor x v w = Ok (nat pos) (v1, w1)
      \<and> Capacity v1 = max 1 (Capacity v * 2)" by blast
next
  assume q: "quiet env" and p: "0 \<le> pos" "pos \<le> int (m_size v)"
  from assms(1) have le: "m_size v \<le> Capacity v" by simp
  from Emplace_quiet [OF q le p] obtain v1 w1 where
    e: "Emplace env pos ctor x v w = Ok (nat pos) (v1, w1)" by blast
  from Emplace_grow_capacity [OF assms e] have c: "Capacity v1 = max 1 (Capacity v * 2)" .
  from e c show "\<exists>v1 w1. Insert env pos ctor x v w = Ok (nat pos) (v1, w1)
      \<and> Capacity v1 = max 1 (Capacity v * 2)" by (simp add: Insert_def)
qed

text \<open>
  The witness: the full vector \<open>[1, 2, 3]\<close> of an element type none of whose operations
  fails; each of the four calls moves it into a block of capacity 6.
\<close>

theorem growth_policy_witness:
  "m_size (vec [1, 2, 3 :: int] 3) = Capacity (vec [1, 2, 3 :: int] 3)
   \<and> Capacity (vec [1, 2, 3 :: int] 3) < 2 ^ 63
   \<and> quiet (elem_type True True (\<lambda>k t. False))
   \<and> (0 :: int) \<le> 1 \<and> (1 :: int) \<le> int (m_size (vec [1, 2, 3 :: int] 3))
   \<and> EmplaceBack (elem_type True True (\<lambda>k t. False)) CopyCtor 9 (vec [1, 2, 3] 3) start
       = Ok 3 (vec [1, 2, 3, 9] 6,
               \<lparr>tick = 5, trace = [Did (OpNew 24), Did CopyCtor, Did MoveCtor, Did MoveCtor, Did MoveCtor,
                                  Destroyed, Destroyed, Destroyed]\<rparr>)
   \<and> PushBack (elem_type True True (\<lambda>k t. False)) CopyCtor 9 (vec [1, 2, 3] 3) start
       = Ok () (vec [1, 2, 3, 9] 6,
               \<lparr>tick = 5, trace = [Did (OpNew 24), Did CopyCtor, Did MoveCtor, Did MoveCtor, Did MoveCtor,
                                  Destroyed, Destroyed, Destroyed]\<rparr>)
   \<and> Emplace (elem_type True True (\<lambda>k t. False)) 1 CopyCtor 9 (vec [1, 2, 3] 3) start
       = Ok 1 (vec [1, 9, 2, 3] 6,
               \<lparr>tick = 5, trace = [Did (OpNew 24), Did CopyCtor, Did MoveCtor, Did MoveCtor, Did MoveCtor,
                                  Destroyed, Destroyed, Destroyed]\<rparr>)
   \<and> Insert (elem_type True True (\<lambda>k t. False)) 1 CopyCtor 9 (vec [1, 2, 3] 3) start
       = Ok 1 (vec [1, 9, 2, 3] 6,
               \<lparr>tick = 5, trace = [Did (OpNew 24), Did CopyCtor, Did MoveCtor, Did MoveCtor, Did MoveCtor,
                                  Destroyed, Destroyed, Destroyed]\<rparr>)
   \<and> Capacity (vec [1, 2, 3, 9 :: int] 6) = max 1 (Capacity (vec [1, 2, 3 :: int] 3) * 2)
   \<and> Capacity (vec [1, 9, 2, 3 :: int] 6) = max 1 (Capacity (vec [1, 2, 3 :: int] 3) * 2)"
proof -
  let ?E = "elem_type True True (\<lambda>k t. False)"
  let ?W = "\<lparr>tick = 5, trace = [Did (OpNew 24), Did CopyCtor, Did MoveCtor, Did MoveCtor, Did MoveCtor,
                                  Destroyed, Destroyed, Destroyed]\<rparr>"
  have a: "m_size (vec [1, 2, 3 :: int] 3) = Capacity (vec [1, 2, 3 :: int] 3)"
    by (simp add: vec_def Capacity_def)
  have b: "Capacity (vec [1, 2, 3 :: int] 3) < 2 ^ 63"
    by (simp add: vec_def Capacity_def)
  have q: "quiet ?E" by (simp add: quiet_def fails_def elem_type_def)
  have p: "(0 :: int) \<le> 1" "(1 :: int) \<le> int (m_size (vec [1, 2, 3 :: int] 3))"
    by (simp_all add: vec_def)
  have c: "EmplaceBack ?E CopyCtor 9 (vec [1, 2, 3] 3) start = Ok 3 (vec [1, 2, 3, 9] 6, ?W)"
    by code_simp
  have d: "PushBack ?E CopyCtor 9 (vec [1, 2, 3] 3) start = Ok () (vec [1, 2, 3, 9] 6, ?W)"
    by code_simp
  have e: "Emplace ?E 1 CopyCtor 9 (vec [1, 2, 3] 3) start = Ok 1 (vec [1, 9, 2, 3] 6, ?W)"
    by code_simp
  have f: "Insert ?E 1 CopyCtor 9 (vec [1, 2, 3] 3) start = Ok 1 (vec [1, 9, 2, 3] 6, ?W)"
    by code_simp
  note g = growth_policy [OF a b, where env = ?E and ctor = CopyCtor and x = 9 and w = start
      and pos = 1]
  from g [where r = 3 and v' = "vec [1, 2, 3, 9] 6" and w' = ?W] c
  have h: "Capacity (vec [1, 2, 3, 9 :: int] 6) = max 1 (Capacity (vec [1, 2, 3 :: int] 3) * 2)"
    by simp
  from g [where r = 1 and v' = "vec [1, 9, 2, 3] 6" and w' = ?W] e
  have i: "Capacity (vec [1, 9, 2, 3 :: int] 6) = max 1 (Capacity (vec [1, 2, 3 :: int] 3) * 2)"
    by simp
  from a b q p c d e f h i show ?thesis by simp
qed

section \<open>Strong guarantee of the reallocating paths\<close>

lemma Reserve_copy_Throw:
  "\<not> use_move env \<Longrightarrow> Reserve env n v w = Throw e (v', w') \<Longrightarrow> v' = v"
  by (auto simp: Reserve_def split: if_splits outcome.splits prod.splits)

lemma EmplaceBack_copy_Throw:
  "\<not> use_move env \<Longrightarrow> m_size v = Capacity v \<Longrightarrow> EmplaceBack env ctor x v w = Throw e (v', w') \<Longrightarrow> v' = v"
  by (auto simp: EmplaceBack_def EmplaceBack_return_def Let_def split: if_splits outcome.splits prod.splits)

lemma Emplace_copy_Throw:
  "\<not> use_move env \<Longrightarrow> m_size v = Capacity v \<Longrightarrow> Emplace env pos ctor x v w = Throw e (v', w') \<Longrightarrow> v' = v"
  by (auto simp: Emplace_def Emplace_realloc_def Emplace_return_def Let_def
      split: if_splits outcome.splits prod.splits)

text \<open>
  C1.  For an element type that is transferred by copy (its move constructor may throw and
  it has a copy constructor), a \<^verbatim>\<open>Reserve\<close>, and a \<^verbatim>\<open>PushBack\<close>, \<^verbatim>\<open>EmplaceBack\<close>,
  \<^verbatim>\<open>Emplace\<close> or \<^verbatim>\<open>Insert\<close> on a vector whose length equals its capacity, that exits with an
  exception leaves the vector exactly as it was before the call: the same length, the
  same capacity, the same block with the same elements.  This covers the exception of the
  k-th copy during the transfer, for every k.
\<close>

theorem strong_guarantee_on_growth:
  assumes "\<not> use_move env"
  shows "(Reserve env n v w = Throw e (v', w') \<longrightarrow> v' = v)
       \<and> (m_size v = Capacity v \<longrightarrow>
            (EmplaceBack env ctor x v w = Throw e (v', w') \<longrightarrow> v' = v)
          \<and> (PushBack env ctor x v w = Throw e (v', w') \<longrightarrow> v' = v)
          \<and> (Emplace env pos ctor x v w = Throw e (v', w') \<longrightarrow> v' = v)
          \<and> (Insert env pos ctor x v w = Throw e (v', w') \<longrightarrow> v' = v))"
  using assms Reserve_copy_Throw [of env n v w e v' w'] EmplaceBack_copy_Throw [of env v ctor x w e v' w']
    Emplace_copy_Throw [of env v pos ctor x w e v' w']
  by (simp add: PushBack_Throw Insert_def)

text \<open>
  The witness: the vector \<open>[1, 2, 3]\<close> with capacity 3, and an element type whose copy
  constructor throws on the second copy of the transfer.
\<close>

theorem strong_guarantee_on_growth_witness:
  "\<not> use_move (elem_type False True (\<lambda>k t. k = CopyCtor \<and> t = 3))
   \<and> m_size (vec [1, 2, 3 :: int] 3) = Capacity (vec [1, 2, 3 :: int] 3)
   \<and> EmplaceBack (elem_type False True (\<lambda>k t. k = CopyCtor \<and> t = 3)) ArgCtor 9 (vec [1, 2, 3] 3) start
       = Throw elem_exn (vec [1, 2, 3] 3,
           \<lparr>tick = 4, trace = [Did (OpNew 24), Did ArgCtor, Did CopyCtor, Threw CopyCtor, Destroyed,
              Fault DestroyNotLive, Fault DestroyNotLive, Fault DestroyNotLive, Fault FreedWhileLive]\<rparr>)
   \<and> Emplace (elem_type False True (\<lambda>k t. k = CopyCtor \<and> t = 3)) 1 ArgCtor 9 (vec [1, 2, 3] 3) start
       = Throw elem_exn (vec [1, 2, 3] 3,
           \<lparr>tick = 4, trace = [Did (OpNew 24), Did ArgCtor, Did CopyCtor, Threw CopyCtor, Destroyed,
              Destroyed, Fault DestroyNotLive]\<rparr>)
   \<and> Reserve (elem_type False True (\<lambda>k t. k = CopyCtor \<and> t = 2)) 10 (vec [1, 2, 3] 3) start
       = Throw elem_exn (vec [1, 2, 3] 3,
           \<lparr>tick = 3, trace = [Did (OpNew 40), Did CopyCtor, Threw CopyCtor, Destroyed]\<rparr>)"
proof -
  have a: "\<not> use_move (elem_type False True (\<lambda>k t. k = CopyCtor \<and> t = 3))"
    by (simp add: use_move_def elem_type_def)
  have b: "m_size (vec [1, 2, 3 :: int] 3) = Capacity (vec [1, 2, 3 :: int] 3)"
    by (simp add: vec_def Capacity_def)
  have c: "EmplaceBack (elem_type False True (\<lambda>k t. k = CopyCtor \<and> t = 3)) ArgCtor 9 (vec [1, 2, 3] 3) start
       = Throw elem_exn (vec [1, 2, 3] 3,
           \<lparr>tick = 4, trace = [Did (OpNew 24), Did ArgCtor, Did CopyCtor, Threw CopyCtor, Destroyed,
              Fault DestroyNotLive, Fault DestroyNotLive, Fault DestroyNotLive, Fault FreedWhileLive]\<rparr>)"
    by code_simp
  have d: "Emplace (elem_type False True (\<lambda>k t. k = CopyCtor \<and> t = 3)) 1 ArgCtor 9 (vec [1, 2, 3] 3) start
       = Throw elem_exn (vec [1, 2, 3] 3,
           \<lparr>tick = 4, trace = [Did (OpNew 24), Did ArgCtor, Did CopyCtor, Threw CopyCtor, Destroyed,
              Destroyed, Fault DestroyNotLive]\<rparr>)"
    by code_simp
  have e: "Reserve (elem_type False True (\<lambda>k t. k = CopyCtor \<and> t = 2)) 10 (vec [1, 2, 3] 3) start
       = Throw elem_exn (vec [1, 2, 3] 3,
           \<lparr>tick = 3, trace = [Did (OpNew 40), Did CopyCtor, Threw CopyCtor, Destroyed]\<rparr>)"
    by code_simp
  have "vec [1, 2, 3 :: int] 3 = vec [1, 2, 3] 3"
    using strong_guarantee_on_growth [OF a, of 10 "vec [1, 2, 3] 3" start elem_exn "vec [1, 2, 3] 3" _ ArgCtor 9 1] b c
    by simp
  with a b c d e show ?thesis by simp
qed


section \<open>Failures that do not reach the caller, destructors on raw slots\<close>

text \<open>
  C4.  \<^verbatim>\<open>Emplace\<close> at the front of \<open>[1, 2]\<close> with capacity 4, for an element type whose
  move assignment throws when the new value is assigned into its slot (the fourth element
  operation of the call).  The call returns normally: the exception is not passed on.
  Slot 0 has been destroyed and the length is 3, with two live elements.
\<close>

theorem emplace_swallows_move_assign_failure:
  "Emplace (elem_type True True (\<lambda>k t. k = MoveAsg \<and> t = 3)) 0 ArgCtor 9 (vec [1, 2] 4) start =
     Ok 0 (\<lparr>m_data = \<lparr>m_buffer = [None, Some 1, Some 2, None], m_capacity = 4\<rparr>, m_size = 3\<rparr>,
           \<lparr>tick = 4, trace = [Did ArgCtor, Did MoveCtor, Did MoveAsg, Threw MoveAsg, Destroyed, Destroyed]\<rparr>)"
  by code_simp

text \<open>
  C5.  \<^verbatim>\<open>Emplace\<close> into the empty vector without a buffer, for an element type whose
  constructor throws: the \<^verbatim>\<open>catch\<close> block runs the destructor on the slot of the new
  block in which no object has been constructed.
\<close>

theorem emplace_destroys_unconstructed_slot:
  "Emplace (elem_type False True (\<lambda>k t. k = ArgCtor)) 0 ArgCtor 9 (vec [] 0) start =
     Throw elem_exn (vec [] 0, \<lparr>tick = 2, trace = [Did (OpNew 4), Threw ArgCtor, Fault DestroyNotLive]\<rparr>)"
  by code_simp

text \<open>
  C8.  \<^verbatim>\<open>Insert\<close> of 9 at the front of \<open>[1, 2]\<close> with capacity 4, for a copyable element type
  whose move assignment throws when the new value is assigned into its slot.  The failure
  is not passed on: \<^verbatim>\<open>Insert\<close> returns normally, with slot 0 destroyed and length 3.
  \<^verbatim>\<open>Erase\<close> at the same position then returns and leaves a vector of length 2 whose slot
  0 holds no object and whose slot 1 holds 2: the sequence \<open>[1, 2]\<close> is not restored.
\<close>

theorem insert_then_erase_does_not_restore:
  "Insert (elem_type False True (\<lambda>k t. k = MoveAsg \<and> t = 3)) 0 CopyCtor 9 (vec [1, 2] 4) start =
     Ok 0 (\<lparr>m_data = \<lparr>m_buffer = [None, Some 1, Some 2, None], m_capacity = 4\<rparr>, m_size = 3\<rparr>,
           \<lparr>tick = 4, trace = [Did CopyCtor, Did MoveCtor, Did MoveAsg, Threw MoveAsg, Destroyed, Destroyed]\<rparr>)
   \<and> Erase (elem_type False True (\<lambda>k t. k = MoveAsg \<and> t = 3)) 0
         \<lparr>m_data = \<lparr>m_buffer = [None, Some 1, Some 2, None], m_capacity = 4\<rparr>, m_size = 3\<rparr>
         \<lparr>tick = 4, trace = [Did CopyCtor, Did MoveCtor, Did MoveAsg, Threw MoveAsg, Destroyed, Destroyed]\<rparr> =
     Ok 0 (\<lparr>m_data = \<lparr>m_buffer = [None, Some 2, None, None], m_capacity = 4\<rparr>, m_size = 2\<rparr>,
           \<lparr>tick = 5, trace = [Did CopyCtor, Did MoveCtor, Did MoveAsg, Threw MoveAsg, Destroyed, Destroyed,
              Fault UseNotLive, Did MoveAsg, Destroyed]\<rparr>)
   \<and> \<lparr>m_data = \<lparr>m_buffer = [None, Some 2, None, None], m_capacity = 4\<rparr>, m_size = 2\<rparr>
       \<noteq> vec [1, 2 :: int] 4"
  by code_simp

section \<open>The invariant of length and capacity\<close>

subsection \<open>Sound worlds and the lengths of blocks\<close>

text \<open>
  A step keeps the length of the block it works on, it is recorded in the trace only by
  adding events, and it leaves a sound world only if it started in one and constructed
  inside the block.
\<close>

lemma sound_log_event [simp]:
  "sound (log_event e w) \<longleftrightarrow> sound w \<and> e \<noteq> Fault UseNotLive \<and> e \<noteq> Fault ConstructOutside"
  by (auto simp: sound_def log_event_def)

lemma sound_attempt: "attempt env k w = (f, w') \<Longrightarrow> sound w' = sound w"
  by (auto simp: attempt_eq sound_def)

lemma sound_RawMemory_dtor [simp]: "sound (RawMemory_dtor d w) = sound w"
  by (simp add: RawMemory_dtor_def)

lemma attempt_soundE:
  "attempt env k w = (f, w') \<Longrightarrow> sound w' \<Longrightarrow> (sound w \<Longrightarrow> P) \<Longrightarrow> P"
  by (simp add: sound_attempt)





lemma destroy_at_sound:
  "destroy_at buf i w = (b, w') \<Longrightarrow> sound w' = sound w \<and> length b = length buf"
  by (auto simp: destroy_at_def split: option.splits)

lemma destroy_n_sound:
  "destroy_n buf first n w = (b, w') \<Longrightarrow> sound w' = sound w \<and> length b = length buf"
proof (induction n arbitrary: buf first w)
  case 0
  then show ?case by simp
next
  case (Suc n)
  obtain b1 w1 where d: "destroy_at buf first w = (b1, w1)" by (cases "destroy_at buf first w") auto
  with Suc.prems have "destroy_n b1 (Suc first) n w1 = (b, w')" by simp
  from Suc.IH [OF this] destroy_at_sound [OF d] show ?case by simp
qed







lemma sound_destroy_n [simp]: "sound (snd (destroy_n buf first n w)) = sound w"
  using destroy_n_sound [of buf first n w "fst (destroy_n buf first n w)" "snd (destroy_n buf first n w)"]
  by simp







lemma set_buffer_fields [simp]:
  "m_size (set_buffer b v) = m_size v"
  "m_capacity (m_data (set_buffer b v)) = m_capacity (m_data v)"
  "m_buffer (m_data (set_buffer b v)) = b"
  by (simp_all add: set_buffer_def)

subsection \<open>The operations of the vector\<close>






lemma EmplaceBack_return_no_Throw [simp]: "EmplaceBack_return v w1 \<noteq> Throw e s"
  by (simp add: EmplaceBack_return_def Let_def)

lemma Emplace_return_no_Throw [simp]: "Emplace_return c v w1 \<noteq> Throw e s"
  by (simp add: Emplace_return_def)
















lemma sound_Vector_dtor [simp]: "sound (Vector_dtor v w) = sound w"
  by (simp add: Vector_dtor_def case_prod_beta)

subsection \<open>Programs\<close>

lemma block_inv_default [simp]: "block_inv Vector_default"
  by (simp add: block_inv_def Vector_default_def RawMemory_default_def size_t_max_def)











section \<open>Reserve and Resize\<close>

subsection \<open>Vectors with a live prefix\<close>

lemma vec_fields [simp]:
  "m_size (vec xs cap) = length xs"
  "m_capacity (m_data (vec xs cap)) = cap"
  "m_buffer (m_data (vec xs cap)) = map Some xs @ replicate (cap - length xs) None"
  "Capacity (vec xs cap) = cap"
  by (simp_all add: vec_def Capacity_def)

lemma vec_eqI:
  "m_size v = length ys \<Longrightarrow> m_capacity (m_data v) = c \<Longrightarrow>
   m_buffer (m_data v) = map Some ys @ replicate (c - length ys) None \<Longrightarrow> v = vec ys c"
  by (cases v, cases "m_data v") (simp add: vec_def)

lemma fits_bytes: "fits env n \<Longrightarrow> n * size_of env mod size_t_max = n * size_of env"
  by (simp add: fits_def)

lemma fits_slots: "fits env n \<Longrightarrow> n * size_of env div size_of env = n"
  by (simp add: fits_def)

lemma RawMemory_new_Ok_eq:
  assumes "RawMemory_new env n w = Ok d w1" "n \<noteq> 0" "fits env n"
  shows "d = \<lparr>m_buffer = replicate n None, m_capacity = n\<rparr> \<and> w1 = did (OpNew (n * size_of env)) 1 w"
  using assms(1,2)
  by (auto simp: RawMemory_new_def Allocate_def attempt_eq did_def Let_def
      fits_bytes [OF assms(3)] fits_slots [OF assms(3)] split: outcome.splits if_splits)

lemma RawMemory_dtor_raw: "RawMemory_dtor \<lparr>m_buffer = replicate n None, m_capacity = c\<rparr> w = w"
  by (simp add: RawMemory_dtor_def list_ex_iff)

lemma install_new_data_live:
  assumes "m_buffer (m_data v) = map Some ys @ replicate k None" "m_size v = length ys"
  shows "install_new_data v nd w = (v\<lparr>m_data := nd\<rparr>, destroyed (length ys) w)"
proof -
  from destroy_n_suffix [of 0 ys k w]
  have "destroy_n (m_buffer (m_data v)) 0 (m_size v) w = (replicate (k + length ys) None, destroyed (length ys) w)"
    using assms by simp
  then show ?thesis
    by (simp add: install_new_data_def RawMemory_Swap_def RawMemory_dtor_def list_ex_iff)
qed

text \<open>All the elements of a vector, transferred to the front of a fresh block.\<close>

lemma transfer_copy_all:
  assumes "uninitialized_copy_n env (map Some xs @ replicate k None) 0 (length xs) dst 0 w = Ok u (dst', w')"
    and "length xs \<le> length dst" "\<forall>i<length xs. dst ! i = None"
  shows "length dst' = length dst
       \<and> (\<forall>j<length dst. dst' ! j = (if j < length xs then Some (xs ! j) else dst ! j))
       \<and> w' = did CopyCtor (length xs) w"
proof -
  from assms(1) have r: "uninit_copy env (map Some xs @ replicate k None) 0 (length xs) dst 0 0 w = Ok u (dst', w')"
    by (simp add: uninitialized_copy_n_def)
  have "length dst' = length dst
       \<and> (\<forall>j<length dst. dst' ! j = (if 0 \<le> j \<and> j < 0 + length xs then (map Some xs @ replicate k None) ! (0 + (j - 0)) else dst ! j))
       \<and> w' = did CopyCtor (length xs) w"
    using assms(2,3) by (intro uninit_copy_Ok [OF r]) (auto simp: prefix_slot)
  then show ?thesis by (auto simp: nth_append)
qed

lemma transfer_move_all:
  assumes "uninitialized_move_n env (map Some xs @ replicate k None) 0 (length xs) dst 0 w = Ok u ((src', dst'), w')"
    and "length xs \<le> length dst" "\<forall>i<length xs. dst ! i = None"
  shows "length dst' = length dst
       \<and> (\<forall>j<length dst. dst' ! j = (if j < length xs then Some (xs ! j) else dst ! j))
       \<and> src' = map Some (map (moved_from env) xs) @ replicate k None
       \<and> w' = did MoveCtor (length xs) w"
proof -
  let ?src = "map Some xs @ replicate k None"
  from assms(1) have r: "uninit_move env ?src 0 (length xs) dst 0 0 w = Ok u ((src', dst'), w')"
    by (simp add: uninitialized_move_n_def)
  have *: "length dst' = length dst
       \<and> (\<forall>j<length dst. dst' ! j = (if 0 \<le> j \<and> j < 0 + length xs then ?src ! (0 + (j - 0)) else dst ! j))
       \<and> length src' = length ?src
       \<and> (\<forall>j<length ?src. src' ! j = (if 0 \<le> j \<and> j < 0 + length xs then map_option (moved_from env) (?src ! j) else ?src ! j))
       \<and> w' = did MoveCtor (length xs) w"
    using assms(2,3) by (intro uninit_move_Ok [OF r]) (auto simp: prefix_slot)
  have "src' = map Some (map (moved_from env) xs) @ replicate k None"
    using * by (intro buffer_eqI) (auto simp: nth_append)
  with * show ?thesis by (auto simp: nth_append)
qed


lemma Reserve_vec:
  assumes "length xs \<le> cap" "cap < n" "fits env n" "Reserve env n (vec xs cap) w = Ok u (v', w')"
  shows "v' = vec xs n
       \<and> w' = destroyed (length xs) (did (transfer_op env) (length xs) (did (OpNew (n * size_of env)) 1 w))"
proof -
  let ?v = "vec xs cap"
  from assms(2) have n0: "n \<noteq> 0" by simp
  from assms(4,2) obtain nd w1 where nd: "RawMemory_new env n w = Ok nd w1"
    by (auto simp: Reserve_def split: outcome.splits)
  from RawMemory_new_Ok_eq [OF nd n0 assms(3)]
  have ndeq: "nd = \<lparr>m_buffer = replicate n None, m_capacity = n\<rparr>"
    and w1: "w1 = did (OpNew (n * size_of env)) 1 w"
    by simp_all
  have len: "length xs \<le> length (m_buffer nd)" using assms(1,2) ndeq by simp
  have raw: "\<forall>i<length xs. m_buffer nd ! i = None" using assms(1,2) ndeq by simp
  show ?thesis
  proof (cases "use_move env")
    case True
    with assms(4,2) nd obtain old nb w2 where
      m: "uninitialized_move_n env (m_buffer (m_data ?v)) 0 (m_size ?v) (m_buffer nd) 0 w1 = Ok () ((old, nb), w2)"
      and r: "(v', w') = install_new_data (set_buffer old ?v) (nd\<lparr>m_buffer := nb\<rparr>) w2"
      by (auto simp: Reserve_def split: outcome.splits prod.splits)
    from m have m': "uninitialized_move_n env (map Some xs @ replicate (cap - length xs) None) 0 (length xs) (m_buffer nd) 0 w1
        = Ok () ((old, nb), w2)" by simp
    note t = transfer_move_all [OF m' len raw]
    from t have old: "old = map Some (map (moved_from env) xs) @ replicate (cap - length xs) None"
      and w2: "w2 = did MoveCtor (length xs) w1" by simp_all
    have nb: "nb = map Some xs @ replicate (n - length xs) None"
      using t assms(1,2) ndeq by (intro buffer_eqI) auto
    have "install_new_data (set_buffer old ?v) (nd\<lparr>m_buffer := nb\<rparr>) w2
        = ((set_buffer old ?v)\<lparr>m_data := nd\<lparr>m_buffer := nb\<rparr>\<rparr>, destroyed (length (map (moved_from env) xs)) w2)"
      by (rule install_new_data_live) (simp_all add: old)
    with r have v': "v' = (set_buffer old ?v)\<lparr>m_data := nd\<lparr>m_buffer := nb\<rparr>\<rparr>" and w': "w' = destroyed (length xs) w2"
      by simp_all
    from v' nb ndeq have "v' = vec xs n" by (intro vec_eqI) simp_all
    with w' w2 w1 True show ?thesis by (simp add: transfer_op_def)
  next
    case False
    with assms(4,2) nd obtain nb w2 where
      m: "uninitialized_copy_n env (m_buffer (m_data ?v)) 0 (m_size ?v) (m_buffer nd) 0 w1 = Ok () (nb, w2)"
      and r: "(v', w') = install_new_data ?v (nd\<lparr>m_buffer := nb\<rparr>) w2"
      by (auto simp: Reserve_def split: outcome.splits prod.splits)
    from m have m': "uninitialized_copy_n env (map Some xs @ replicate (cap - length xs) None) 0 (length xs) (m_buffer nd) 0 w1
        = Ok () (nb, w2)" by simp
    note t = transfer_copy_all [OF m' len raw]
    from t have w2: "w2 = did CopyCtor (length xs) w1" by simp
    have nb: "nb = map Some xs @ replicate (n - length xs) None"
      using t assms(1,2) ndeq by (intro buffer_eqI) auto
    have "install_new_data ?v (nd\<lparr>m_buffer := nb\<rparr>) w2
        = (?v\<lparr>m_data := nd\<lparr>m_buffer := nb\<rparr>\<rparr>, destroyed (length xs) w2)"
      by (rule install_new_data_live) simp_all
    with r have v': "v' = ?v\<lparr>m_data := nd\<lparr>m_buffer := nb\<rparr>\<rparr>" and w': "w' = destroyed (length xs) w2"
      by simp_all
    from v' nb ndeq have "v' = vec xs n" by (intro vec_eqI) simp_all
    with w' w2 w1 False show ?thesis by (simp add: transfer_op_def)
  qed
qed

lemma Resize_shrink:
  assumes "length xs \<le> cap" "n < length xs"
  shows "Resize env n (vec xs cap) w = Ok () (vec (take n xs) cap, destroyed (length xs - n) w)"
proof -
  from assms(2) have n: "n \<le> length xs" by simp
  have "(set_buffer (map Some (take n xs) @ replicate (cap - length xs + (length xs - n)) None) (vec xs cap))\<lparr>m_size := n\<rparr>
      = vec (take n xs) cap"
    using assms by (intro vec_eqI) (simp_all add: min_def)
  with assms destroy_n_suffix [OF n, of "cap - length xs" w] show ?thesis
    by (simp add: Resize_def)
qed

lemma Resize_grow:
  assumes "length xs \<le> cap" "length xs \<le> n" "cap < n \<longrightarrow> fits env n"
    and "Resize env n (vec xs cap) w = Ok u (v', w')"
  shows "v' = vec (xs @ replicate (n - length xs) (value_init env)) (max cap n)
       \<and> w' = did ValueCtor (n - length xs)
                (if cap < n
                 then destroyed (length xs) (did (transfer_op env) (length xs) (did (OpNew (n * size_of env)) 1 w))
                 else w)"
proof -
  let ?w1 = "if cap < n
      then destroyed (length xs) (did (transfer_op env) (length xs) (did (OpNew (n * size_of env)) 1 w))
      else w"
  from assms(2,4) obtain v1 w1 b where
    r: "Reserve env n (vec xs cap) w = Ok () (v1, w1)"
    and c: "uninitialized_value_construct_n env (m_buffer (m_data v1)) (m_size v1) (n - m_size v1) w1 = Ok () (b, w')"
    and v': "v' = (set_buffer b v1)\<lparr>m_size := n\<rparr>"
    by (auto simp: Resize_def split: outcome.splits prod.splits)
  have v1: "v1 = vec xs (max cap n)" and w1: "w1 = ?w1"
  proof -
    show "v1 = vec xs (max cap n)"
    proof (cases "cap < n")
      case True
      with assms(3) have "fits env n" by simp
      with Reserve_vec [OF assms(1) True this r] True show ?thesis by (simp add: max_def)
    next
      case False
      with r show ?thesis by (simp add: Reserve_def max_def)
    qed
    show "w1 = ?w1"
    proof (cases "cap < n")
      case True
      with assms(3) have "fits env n" by simp
      with Reserve_vec [OF assms(1) True this r] True show ?thesis by simp
    next
      case False
      with r show ?thesis by (simp add: Reserve_def)
    qed
  qed
  let ?c = "max cap n"
  let ?buf = "map Some xs @ replicate (?c - length xs) None"
  from c v1 have c': "uninit_value_construct env (n - length xs) ?buf (length xs) (length xs) w1 = Ok () (b, w')"
    by (simp add: uninitialized_value_construct_n_def)
  have pre: "\<forall>i<n - length xs. length xs + i < length ?buf \<and> ?buf ! (length xs + i) = None"
    using assms(1,2) by (auto simp: nth_append)
  note t = uninit_value_construct_Ok [OF c' pre]
  have b: "b = map Some (xs @ replicate (n - length xs) (value_init env)) @ replicate (?c - n) None"
    using t assms(1,2) by (intro buffer_eqI) (auto simp: nth_append)
  from v' v1 b assms(2) have "v' = vec (xs @ replicate (n - length xs) (value_init env)) ?c"
    by (intro vec_eqI) simp_all
  with t w1 show ?thesis by simp
qed

lemma Resize_Ok_size: "Resize env n v w = Ok u (v', w') \<Longrightarrow> m_size v' = n"
  by (auto simp: Resize_def split: if_splits outcome.splits prod.splits)

text \<open>
  C9.  On a vector holding \<open>xs\<close> in a block of \<open>cap \<ge> length xs\<close> slots:
  \<^verbatim>\<open>Resize(n)\<close> with \<open>n\<close> below the length returns, having destroyed exactly the
  \<open>length xs - n\<close> trailing elements and nothing else, and leaves the first \<open>n\<close>
  elements in the same block.  \<^verbatim>\<open>Resize(n)\<close> with \<open>n\<close> at least the length (and, beyond
  the capacity, with the bytes of \<open>n\<close> objects a \<^verbatim>\<open>size_t\<close>), when it returns, leaves \<open>xs\<close>
  followed by \<open>n - length xs\<close> value-initialised elements; and when no operation fails it
  returns, having transferred \<open>xs\<close> to a block of \<open>n\<close> slots if \<open>n\<close> is beyond the capacity,
  and then value-constructed the \<open>n - length xs\<close> new elements.  In all cases the length is
  \<open>n\<close> afterwards.
\<close>

theorem resize_spec:
  assumes "length xs \<le> cap"
  shows "(n < length xs \<longrightarrow>
            Resize env n (vec xs cap) w = Ok () (vec (take n xs) cap, destroyed (length xs - n) w))
       \<and> (length xs \<le> n \<longrightarrow> (cap < n \<longrightarrow> fits env n) \<longrightarrow>
            (Resize env n (vec xs cap) w = Ok u (v', w') \<longrightarrow>
               v' = vec (xs @ replicate (n - length xs) (value_init env)) (max cap n))
          \<and> (quiet env \<longrightarrow>
               Resize env n (vec xs cap) w =
                 Ok () (vec (xs @ replicate (n - length xs) (value_init env)) (max cap n),
                        did ValueCtor (n - length xs)
                          (if cap < n
                           then destroyed (length xs)
                                  (did (transfer_op env) (length xs) (did (OpNew (n * size_of env)) 1 w))
                           else w))))
       \<and> (Resize env n (vec xs cap) w = Ok u (v', w') \<longrightarrow> m_size v' = n)"
proof (intro conjI impI)
  assume "n < length xs"
  with assms show "Resize env n (vec xs cap) w = Ok () (vec (take n xs) cap, destroyed (length xs - n) w)"
    by (rule Resize_shrink)
next
  assume "length xs \<le> n" "cap < n \<longrightarrow> fits env n" "Resize env n (vec xs cap) w = Ok u (v', w')"
  from Resize_grow [OF assms this]
  show "v' = vec (xs @ replicate (n - length xs) (value_init env)) (max cap n)" by simp
next
  assume a: "length xs \<le> n" "cap < n \<longrightarrow> fits env n" and q: "quiet env"
  from Resize_quiet [OF q] obtain v1 w1 where r: "Resize env n (vec xs cap) w = Ok () (v1, w1)"
    by blast
  from Resize_grow [OF assms a r] r
  show "Resize env n (vec xs cap) w =
      Ok () (vec (xs @ replicate (n - length xs) (value_init env)) (max cap n),
             did ValueCtor (n - length xs)
               (if cap < n
                then destroyed (length xs)
                       (did (transfer_op env) (length xs) (did (OpNew (n * size_of env)) 1 w))
                else w))"
    by simp
next
  assume "Resize env n (vec xs cap) w = Ok u (v', w')"
  then show "m_size v' = n" by (rule Resize_Ok_size)
qed

text \<open>
  The witness: \<open>[1, 2, 3]\<close> with capacity 3 resized to 5 is \<open>[1, 2, 3, 0, 0]\<close> in a block
  of 5 slots, the three elements moved for a type whose move constructor cannot fail and
  copied for a type whose move constructor may fail; \<open>[1, 2, 3]\<close> resized to 1 is \<open>[1]\<close>.
\<close>

theorem resize_spec_witness:
  "length [1, 2, 3 :: int] \<le> 3
   \<and> quiet (elem_type True True (\<lambda>k t. False)) \<and> fits (elem_type True True (\<lambda>k t. False)) 5
   \<and> Resize (elem_type True True (\<lambda>k t. False)) 5 (vec [1, 2, 3] 3) start
       = Ok () (vec [1, 2, 3, 0, 0] 5,
           \<lparr>tick = 6, trace = [Did (OpNew 20), Did MoveCtor, Did MoveCtor, Did MoveCtor,
              Destroyed, Destroyed, Destroyed, Did ValueCtor, Did ValueCtor]\<rparr>)
   \<and> Resize (elem_type False True (\<lambda>k t. False)) 5 (vec [1, 2, 3] 3) start
       = Ok () (vec [1, 2, 3, 0, 0] 5,
           \<lparr>tick = 6, trace = [Did (OpNew 20), Did CopyCtor, Did CopyCtor, Did CopyCtor,
              Destroyed, Destroyed, Destroyed, Did ValueCtor, Did ValueCtor]\<rparr>)
   \<and> Resize (elem_type True True (\<lambda>k t. False)) 1 (vec [1, 2, 3] 3) start
       = Ok () (vec [1] 3, \<lparr>tick = 0, trace = [Destroyed, Destroyed]\<rparr>)"
proof -
  let ?M = "elem_type True True (\<lambda>k t. False)"
  let ?C = "elem_type False True (\<lambda>k t. False)"
  let ?xs = "[1, 2, 3 :: int]"
  have a: "length ?xs \<le> 3" by simp
  have l: "length ?xs \<le> 5" by simp
  have q: "quiet ?M" "quiet ?C" by (simp_all add: quiet_def fails_def elem_type_def)
  have f: "fits ?M 5" "fits ?C 5" by (simp_all add: fits_def elem_type_def size_t_max_def)
  have m: "(vec (?xs @ replicate (5 - length ?xs) (value_init ?M)) (max 3 5),
            did ValueCtor (5 - length ?xs)
              (if (3::nat) < 5
               then destroyed (length ?xs) (did (transfer_op ?M) (length ?xs) (did (OpNew (5 * size_of ?M)) 1 start))
               else start))
         = (vec [1, 2, 3, 0, 0] 5,
           \<lparr>tick = 6, trace = [Did (OpNew 20), Did MoveCtor, Did MoveCtor, Did MoveCtor,
              Destroyed, Destroyed, Destroyed, Did ValueCtor, Did ValueCtor]\<rparr>)"
    by code_simp
  have c: "(vec (?xs @ replicate (5 - length ?xs) (value_init ?C)) (max 3 5),
            did ValueCtor (5 - length ?xs)
              (if (3::nat) < 5
               then destroyed (length ?xs) (did (transfer_op ?C) (length ?xs) (did (OpNew (5 * size_of ?C)) 1 start))
               else start))
         = (vec [1, 2, 3, 0, 0] 5,
           \<lparr>tick = 6, trace = [Did (OpNew 20), Did CopyCtor, Did CopyCtor, Did CopyCtor,
              Destroyed, Destroyed, Destroyed, Did ValueCtor, Did ValueCtor]\<rparr>)"
    by code_simp
  have s: "(vec (take 1 ?xs) 3, destroyed (length ?xs - 1) start)
         = (vec [1] 3, \<lparr>tick = 0, trace = [Destroyed, Destroyed]\<rparr>)"
    by code_simp
  have s1: "1 < length ?xs" by simp
  note g = resize_spec [OF a, where w = start]
  note grow = g [THEN conjunct2, THEN conjunct1, rule_format, OF l, THEN conjunct2, rule_format]
  have b1: "Resize ?M 5 (vec ?xs 3) start
       = Ok () (vec [1, 2, 3, 0, 0] 5,
           \<lparr>tick = 6, trace = [Did (OpNew 20), Did MoveCtor, Did MoveCtor, Did MoveCtor,
              Destroyed, Destroyed, Destroyed, Did ValueCtor, Did ValueCtor]\<rparr>)"
    using grow [OF f(1) q(1)] unfolding m .
  have b2: "Resize ?C 5 (vec ?xs 3) start
       = Ok () (vec [1, 2, 3, 0, 0] 5,
           \<lparr>tick = 6, trace = [Did (OpNew 20), Did CopyCtor, Did CopyCtor, Did CopyCtor,
              Destroyed, Destroyed, Destroyed, Did ValueCtor, Did ValueCtor]\<rparr>)"
    using grow [OF f(2) q(2)] unfolding c .
  have b3: "Resize ?M 1 (vec ?xs 3) start
       = Ok () (vec [1] 3, \<lparr>tick = 0, trace = [Destroyed, Destroyed]\<rparr>)"
    using g [THEN conjunct1, rule_format, OF s1] unfolding s .
  show ?thesis
    by (intro conjI) (rule a q(1) f(1) b1 b2 b3)+
qed

section \<open>EmplaceBack, Emplace and Erase on a vector with a live prefix\<close>

lemma succ_no_wrap: "n < 2 ^ 63 \<Longrightarrow> Suc n mod size_t_max = Suc n"
  by (simp add: size_t_max_def)

lemma double_no_wrap: "c < 2 ^ 63 \<Longrightarrow> c * 2 mod size_t_max = c * 2"
  by (simp add: size_t_max_def)

subsection \<open>Ranges of a live prefix\<close>

lemma copy_into_raw:
  assumes "uninitialized_copy_n env (map Some xs @ replicate k None) s n dst d w = Ok u (dst', w')"
    and "s + n \<le> length xs" "d + n \<le> length dst" "\<forall>j. d \<le> j \<and> j < d + n \<longrightarrow> dst ! j = None"
  shows "length dst' = length dst
       \<and> (\<forall>j<length dst. dst' ! j = (if d \<le> j \<and> j < d + n then Some (xs ! (s + (j - d))) else dst ! j))
       \<and> w' = did CopyCtor n w"
proof -
  let ?src = "map Some xs @ replicate k None"
  from assms(1) have r: "uninit_copy env ?src s n dst d d w = Ok u (dst', w')"
    by (simp add: uninitialized_copy_n_def)
  have "length dst' = length dst
       \<and> (\<forall>j<length dst. dst' ! j = (if d \<le> j \<and> j < d + n then ?src ! (s + (j - d)) else dst ! j))
       \<and> w' = did CopyCtor n w"
    using assms(2,3,4) by (intro uninit_copy_Ok [OF r]) (auto simp: prefix_slot)
  moreover have "?src ! (s + (j - d)) = Some (xs ! (s + (j - d)))" if "d \<le> j \<and> j < d + n" for j
  proof -
    from that assms(2) have "s + (j - d) < length xs" by arith
    then show ?thesis by (simp only: nth_append length_map if_True nth_map)
  qed
  ultimately show ?thesis by auto
qed

lemma move_into_raw:
  assumes "uninitialized_move_n env (map Some xs @ replicate k None) s n dst d w = Ok u ((src', dst'), w')"
    and "s + n \<le> length xs" "d + n \<le> length dst" "\<forall>j. d \<le> j \<and> j < d + n \<longrightarrow> dst ! j = None"
  shows "length dst' = length dst
       \<and> (\<forall>j<length dst. dst' ! j = (if d \<le> j \<and> j < d + n then Some (xs ! (s + (j - d))) else dst ! j))
       \<and> (\<exists>ys. src' = map Some ys @ replicate k None \<and> length ys = length xs
              \<and> (\<forall>j<length xs. \<not> (s \<le> j \<and> j < s + n) \<longrightarrow> ys ! j = xs ! j))
       \<and> w' = did MoveCtor n w"
proof -
  let ?src = "map Some xs @ replicate k None"
  from assms(1) have r: "uninit_move env ?src s n dst d d w = Ok u ((src', dst'), w')"
    by (simp add: uninitialized_move_n_def)
  have *: "length dst' = length dst
       \<and> (\<forall>j<length dst. dst' ! j = (if d \<le> j \<and> j < d + n then ?src ! (s + (j - d)) else dst ! j))
       \<and> length src' = length ?src
       \<and> (\<forall>j<length ?src. src' ! j = (if s \<le> j \<and> j < s + n then map_option (moved_from env) (?src ! j) else ?src ! j))
       \<and> w' = did MoveCtor n w"
    using assms(2,3,4) by (intro uninit_move_Ok [OF r]) (auto simp: prefix_slot)
  have a: "?src ! (s + (j - d)) = Some (xs ! (s + (j - d)))" if "d \<le> j \<and> j < d + n" for j
  proof -
    from that assms(2) have "s + (j - d) < length xs" by arith
    then show ?thesis by (simp only: nth_append length_map if_True nth_map)
  qed
  let ?ys = "map (\<lambda>j. if s \<le> j \<and> j < s + n then moved_from env (xs ! j) else xs ! j) [0..<length xs]"
  have "src' = map Some ?ys @ replicate k None"
    using * by (intro buffer_eqI) (auto simp: nth_append)
  then have "\<exists>ys. src' = map Some ys @ replicate k None \<and> length ys = length xs
              \<and> (\<forall>j<length xs. \<not> (s \<le> j \<and> j < s + n) \<longrightarrow> ys ! j = xs ! j)"
    by (intro exI [of _ ?ys]) auto
  with * a show ?thesis by auto
qed

subsection \<open>Move assignment inside a block\<close>

lemma move_assign_within_ok:
  assumes "\<forall>t. \<not> fails env MoveAsg t" "slot buf s = Some x" "slot buf d \<noteq> None"
  shows "move_assign_within env buf s d w = (False, buf[s := Some (moved_from env x), d := Some x], did MoveAsg 1 w)"
  using assms by (auto simp: move_assign_within_def attempt_ok)

lemma move_range_shift:
  assumes "\<forall>t. \<not> fails env MoveAsg t" "\<forall>i\<le>n. slot buf (d + i) \<noteq> None"
  shows "\<exists>b'. move_range env buf (Suc d) n d w = Ok () (b', did MoveAsg n w)
            \<and> length b' = length buf
            \<and> (\<forall>j<length buf. b' ! j =
                 (if d \<le> j \<and> j < d + n then buf ! Suc j
                  else if j = d + n \<and> 0 < n then map_option (moved_from env) (buf ! j)
                  else buf ! j))"
  using assms(2)
proof (induction n arbitrary: buf d w)
  case 0
  then show ?case by auto
next
  case (Suc n)
  from Suc.prems have "slot buf (d + 0) \<noteq> None" by blast
  then have ld: "slot buf d \<noteq> None" by simp
  from Suc.prems have "slot buf (d + 1) \<noteq> None" by (metis Suc_leI One_nat_def zero_less_Suc)
  then obtain x where x: "slot buf (Suc d) = Some x" by auto
  then have bx: "buf ! Suc d = Some x" "Suc d < length buf" by (simp_all add: slot_Some_iff)
  let ?b1 = "buf[Suc d := Some (moved_from env x), d := Some x]"
  have step: "move_assign_within env buf (Suc d) d w = (False, ?b1, did MoveAsg 1 w)"
    by (rule move_assign_within_ok [OF assms(1) x ld])
  have pre: "\<forall>i\<le>n. slot ?b1 (Suc d + i) \<noteq> None"
  proof (intro allI impI)
    fix i assume "i \<le> n"
    then have "Suc i \<le> Suc n" by simp
    with Suc.prems have "slot buf (d + Suc i) \<noteq> None" by blast
    then show "slot ?b1 (Suc d + i) \<noteq> None"
      by (auto simp: slot_def nth_list_update split: if_splits)
  qed
  from Suc.IH [OF pre, of "did MoveAsg 1 w"]
  obtain b' where r: "move_range env ?b1 (Suc (Suc d)) n (Suc d) (did MoveAsg 1 w) = Ok () (b', did MoveAsg n (did MoveAsg 1 w))"
    and len: "length b' = length ?b1"
    and nth: "\<forall>j<length ?b1. b' ! j =
                 (if Suc d \<le> j \<and> j < Suc d + n then ?b1 ! Suc j
                  else if j = Suc d + n \<and> 0 < n then map_option (moved_from env) (?b1 ! j)
                  else ?b1 ! j)"
    by blast
  have "\<forall>j<length buf. b' ! j =
                 (if d \<le> j \<and> j < d + Suc n then buf ! Suc j
                  else if j = d + Suc n \<and> 0 < Suc n then map_option (moved_from env) (buf ! j)
                  else buf ! j)"
  proof (intro allI impI)
    fix j assume j: "j < length buf"
    consider "j = d" | "Suc d \<le> j \<and> j < Suc d + n" | "j = Suc d + n" | "j < d" | "Suc d + n < j"
      by linarith
    then show "b' ! j =
                 (if d \<le> j \<and> j < d + Suc n then buf ! Suc j
                  else if j = d + Suc n \<and> 0 < Suc n then map_option (moved_from env) (buf ! j)
                  else buf ! j)"
    proof cases
      case 1
      with nth j bx show ?thesis by (simp add: nth_list_update)
    next
      case 2
      with nth j show ?thesis by (simp add: nth_list_update)
    next
      case 3
      with nth j bx show ?thesis by (cases "n = 0") (simp_all add: nth_list_update)
    next
      case 4
      with nth j show ?thesis by (simp add: nth_list_update)
    next
      case 5
      with nth j show ?thesis by (simp add: nth_list_update)
    qed
  qed
  with r len step show ?case by (simp add: did_Suc)
qed

lemma move_backward_shift:
  assumes "\<forall>t. \<not> fails env MoveAsg t" "\<forall>i\<le>n. slot buf (first + i) \<noteq> None"
  shows "\<exists>b'. move_backward env buf first n (Suc (first + n)) w = Ok () (b', did MoveAsg n w)
            \<and> length b' = length buf
            \<and> (\<forall>j<length buf. b' ! j =
                 (if first < j \<and> j \<le> first + n then buf ! (j - 1)
                  else if j = first \<and> 0 < n then map_option (moved_from env) (buf ! j)
                  else buf ! j))"
  using assms(2)
proof (induction n arbitrary: buf w)
  case 0
  then show ?case by auto
next
  case (Suc n)
  from Suc.prems have "slot buf (first + n) \<noteq> None" by (metis le_Suc_eq order_refl)
  then obtain x where x: "slot buf (first + n) = Some x" by auto
  then have bx: "buf ! (first + n) = Some x" "first + n < length buf" by (simp_all add: slot_Some_iff)
  from Suc.prems have ld: "slot buf (Suc (first + n)) \<noteq> None" by (metis add_Suc_right order_refl)
  let ?b1 = "buf[first + n := Some (moved_from env x), Suc (first + n) := Some x]"
  have step: "move_assign_within env buf (first + n) (Suc (first + n)) w = (False, ?b1, did MoveAsg 1 w)"
    by (rule move_assign_within_ok [OF assms(1) x ld])
  have pre: "\<forall>i\<le>n. slot ?b1 (first + i) \<noteq> None"
  proof (intro allI impI)
    fix i assume i: "i \<le> n"
    with Suc.prems have "slot buf (first + i) \<noteq> None" by (metis le_Suc_eq)
    with i bx show "slot ?b1 (first + i) \<noteq> None"
      by (cases "i = n") (auto simp: slot_def nth_list_update split: if_splits)
  qed
  from Suc.IH [OF pre, of "did MoveAsg 1 w"]
  obtain b' where r: "move_backward env ?b1 first n (Suc (first + n)) (did MoveAsg 1 w) = Ok () (b', did MoveAsg n (did MoveAsg 1 w))"
    and len: "length b' = length ?b1"
    and nth: "\<forall>j<length ?b1. b' ! j =
                 (if first < j \<and> j \<le> first + n then ?b1 ! (j - 1)
                  else if j = first \<and> 0 < n then map_option (moved_from env) (?b1 ! j)
                  else ?b1 ! j)"
    by blast
  have "\<forall>j<length buf. b' ! j =
                 (if first < j \<and> j \<le> first + Suc n then buf ! (j - 1)
                  else if j = first \<and> 0 < Suc n then map_option (moved_from env) (buf ! j)
                  else buf ! j)"
  proof (intro allI impI)
    fix j assume j: "j < length buf"
    consider "j = Suc (first + n)" | "first < j \<and> j \<le> first + n" | "j = first" | "j < first" | "Suc (first + n) < j"
      by linarith
    then show "b' ! j =
                 (if first < j \<and> j \<le> first + Suc n then buf ! (j - 1)
                  else if j = first \<and> 0 < Suc n then map_option (moved_from env) (buf ! j)
                  else buf ! j)"
    proof cases
      case 1
      with nth j bx show ?thesis by (simp add: nth_list_update)
    next
      case 2
      then have "j - 1 \<noteq> first + n" "j - 1 \<noteq> Suc (first + n)" by arith+
      with 2 nth j show ?thesis by (simp add: nth_list_update)
    next
      case 3
      with nth j bx show ?thesis by (cases "n = 0") (simp_all add: nth_list_update)
    next
      case 4
      with nth j show ?thesis by (simp add: nth_list_update)
    next
      case 5
      with nth j show ?thesis by (simp add: nth_list_update)
    qed
  qed
  with r len step show ?case by (simp add: did_Suc)
qed

subsection \<open>Insertion into a list\<close>

lemma nth_inserted:
  assumes "c \<le> length xs" "j \<le> length xs"
  shows "(take c xs @ x # drop c xs) ! j = (if j < c then xs ! j else if j = c then x else xs ! (j - 1))"
proof -
  have l: "length (take c xs) = c" using assms(1) by simp
  show ?thesis
  proof (cases "j < c")
    case True
    then show ?thesis using l by (simp add: nth_append)
  next
    case False
    show ?thesis
    proof (cases "j = c")
      case True
      then show ?thesis using l by (simp add: nth_append)
    next
      case ne: False
      with False have "c < j" by simp
      then obtain i where i: "j = Suc (c + i)" by (metis less_iff_Suc_add)
      with assms have "c + i < length xs" by simp
      with i l show ?thesis by (simp add: nth_append)
    qed
  qed
qed

lemma erase_inserted:
  assumes "c \<le> length xs"
  shows "take c (take c xs @ x # drop c xs) @ drop (Suc c) (take c xs @ x # drop c xs) = xs"
  using assms by simp

subsection \<open>EmplaceBack\<close>

lemma EmplaceBack_return_ok:
  assumes "m_size v < m_capacity (m_data v)" "m_size v < 2 ^ 63"
  shows "EmplaceBack_return v w = Ok (m_size v) (v\<lparr>m_size := Suc (m_size v)\<rparr>, w)"
  using assms by (simp add: EmplaceBack_return_def Let_def succ_no_wrap)

lemma Emplace_return_ok:
  assumes "m_size v < 2 ^ 63"
  shows "Emplace_return count v w = Ok count (v\<lparr>m_size := Suc (m_size v)\<rparr>, w)"
  using assms by (simp add: Emplace_return_def succ_no_wrap)

lemma EmplaceBack_spare:
  assumes "length xs < cap" "cap < 2 ^ 63" "EmplaceBack env ctor x (vec xs cap) w = Ok r (v', w')"
  shows "r = length xs \<and> v' = vec (xs @ [x]) cap \<and> w' = did ctor 1 w"
proof -
  let ?v = "vec xs cap"
  let ?buf = "map Some xs @ replicate (cap - length xs) None"
  obtain fail b w1 where c: "construct_at env ctor x ?buf (length xs) w = (fail, b, w1)"
    by (cases "construct_at env ctor x ?buf (length xs) w") auto
  from assms(1,3) c have nf: "\<not> fail"
    by (auto simp: EmplaceBack_def split: if_splits)
  have "length xs < length ?buf" "?buf ! length xs = None" using assms(1) by (simp_all add: nth_append)
  from construct_at_fresh [OF c nf this] have b: "b = ?buf[length xs := Some x]" and w1: "w1 = did ctor 1 w"
    by simp_all
  from assms(1,3) c nf have r: "EmplaceBack_return (set_buffer b ?v) w1 = Ok r (v', w')"
    by (simp add: EmplaceBack_def)
  have "EmplaceBack_return (set_buffer b ?v) w1 = Ok (length xs) ((set_buffer b ?v)\<lparr>m_size := Suc (length xs)\<rparr>, w1)"
    using EmplaceBack_return_ok [of "set_buffer b ?v" w1] assms(1,2) by simp
  with r have r': "r = length xs" "v' = (set_buffer b ?v)\<lparr>m_size := Suc (length xs)\<rparr>" "w' = w1"
    by auto
  have "b = map Some (xs @ [x]) @ replicate (cap - Suc (length xs)) None"
    using assms(1) b by (intro buffer_eqI) (auto simp: nth_append nth_list_update)
  with r' have "v' = vec (xs @ [x]) cap" by (intro vec_eqI) simp_all
  with r' w1 show ?thesis by simp
qed

text \<open>
  The new block of a reallocation: \<open>m\<close> raw slots, the new element built in slot \<open>c\<close>,
  then the elements \<open>xs\<close> around it.
\<close>

lemma filled_block:
  assumes "length nb1 = m" "length xs < m" "c \<le> length xs"
    and "\<forall>j<m. nb1 ! j = (if j < c then Some (xs ! j) else if j = c then Some x
                            else if j \<le> length xs then Some (xs ! (j - 1)) else None)"
  shows "nb1 = map Some (take c xs @ x # drop c xs) @ replicate (m - Suc (length xs)) None"
proof (rule buffer_eqI)
  show "length nb1 = length (take c xs @ x # drop c xs) + (m - Suc (length xs))"
    using assms(1,2,3) by simp
next
  fix j assume "j < length (take c xs @ x # drop c xs)"
  then have j: "j \<le> length xs" using assms(3) by simp
  with assms(2) have "j < m" by simp
  with assms(4) j nth_inserted [OF assms(3) j, of x] show "nb1 ! j = Some ((take c xs @ x # drop c xs) ! j)"
    by auto
next
  fix j assume "length (take c xs @ x # drop c xs) \<le> j" "j < length (take c xs @ x # drop c xs) + (m - Suc (length xs))"
  then have "length xs < j" "j < m" using assms(2,3) by simp_all
  with assms(3,4) show "nb1 ! j = None" by auto
qed

lemma EmplaceBack_grow:
  assumes "length xs = cap" "cap < 2 ^ 63" "EmplaceBack env ctor x (vec xs cap) w = Ok r (v', w')"
    and "fits env (max 1 (cap * 2))"
  shows "r = length xs \<and> v' = vec (xs @ [x]) (max 1 (cap * 2))
       \<and> w' = destroyed (length xs) (did (transfer_op env) (length xs) (did ctor 1 (did (OpNew (max 1 (cap * 2) * size_of env)) 1 w)))"
proof -
  let ?v = "vec xs cap"
  let ?m = "max 1 (cap * 2)"
  have m: "(if m_size ?v = 0 then 1 else (Capacity ?v * 2) mod size_t_max) = ?m"
    using assms(1,2) by (simp add: double_no_wrap max_def)
  have m0: "?m \<noteq> 0" by simp
  have lt: "length xs < ?m" using assms(1) by (simp add: max_def)
  have sz: "m_size ?v = Capacity ?v" using assms(1) by simp
  from assms(3) sz m obtain nd w1 where nd: "RawMemory_new env ?m w = Ok nd w1"
    by (auto simp: EmplaceBack_def split: outcome.splits)
  from RawMemory_new_Ok_eq [OF nd m0 assms(4)]
  have ndeq: "nd = \<lparr>m_buffer = replicate ?m None, m_capacity = ?m\<rparr>" and w1: "w1 = did (OpNew (?m * size_of env)) 1 w"
    by simp_all
  obtain fail nb w2 where c: "construct_at env ctor x (m_buffer nd) (m_size ?v) w1 = (fail, nb, w2)"
    by (cases "construct_at env ctor x (m_buffer nd) (m_size ?v) w1") auto
  from assms(3) sz m nd c have nf: "\<not> fail"
    by (auto simp: EmplaceBack_def split: if_splits)
  have "m_size ?v < length (m_buffer nd)" "m_buffer nd ! m_size ?v = None"
    using lt ndeq by simp_all
  from construct_at_fresh [OF c nf this]
  have nb: "nb = (replicate ?m None)[length xs := Some x]" and w2: "w2 = did ctor 1 w1"
    using ndeq by simp_all
  have len: "length xs \<le> length nb" using lt nb by simp
  have raw: "\<forall>i<length xs. nb ! i = None" using lt nb by simp
  have "\<exists>old nb1. EmplaceBack_return ((set_buffer old ?v)\<lparr>m_data := nd\<lparr>m_buffer := nb1\<rparr>\<rparr>)
            (destroyed (length xs) (did (transfer_op env) (length xs) w2)) = Ok r (v', w')
        \<and> length nb1 = length nb
        \<and> (\<forall>j<length nb. nb1 ! j = (if j < length xs then Some (xs ! j) else nb ! j))"
  proof (cases "use_move env")
    case True
    with assms(3) sz m nd c nf obtain old nb1 w3 where
      t: "uninitialized_move_n env (m_buffer (m_data ?v)) 0 (m_size ?v) nb 0 w2 = Ok () ((old, nb1), w3)"
      and r: "(case install_new_data (set_buffer old ?v) (nd\<lparr>m_buffer := nb1\<rparr>) w3 of
                (v1, w4) \<Rightarrow> EmplaceBack_return v1 w4) = Ok r (v', w')"
      by (auto simp: EmplaceBack_def split: outcome.splits prod.splits)
    from t have t': "uninitialized_move_n env (map Some xs @ replicate (cap - length xs) None) 0 (length xs) nb 0 w2
        = Ok () ((old, nb1), w3)" by simp
    note f = transfer_move_all [OF t' len raw]
    have "install_new_data (set_buffer old ?v) (nd\<lparr>m_buffer := nb1\<rparr>) w3
        = ((set_buffer old ?v)\<lparr>m_data := nd\<lparr>m_buffer := nb1\<rparr>\<rparr>, destroyed (length (map (moved_from env) xs)) w3)"
      using f by (intro install_new_data_live) simp_all
    with r f True show ?thesis
      by (intro exI [of _ old] exI [of _ nb1]) (simp add: transfer_op_def)
  next
    case False
    with assms(3) sz m nd c nf obtain nb1 w3 where
      t: "uninitialized_copy_n env (m_buffer (m_data ?v)) 0 (m_size ?v) nb 0 w2 = Ok () (nb1, w3)"
      and r: "(case install_new_data ?v (nd\<lparr>m_buffer := nb1\<rparr>) w3 of
                (v1, w4) \<Rightarrow> EmplaceBack_return v1 w4) = Ok r (v', w')"
      by (auto simp: EmplaceBack_def split: outcome.splits prod.splits)
    from t have t': "uninitialized_copy_n env (map Some xs @ replicate (cap - length xs) None) 0 (length xs) nb 0 w2
        = Ok () (nb1, w3)" by simp
    note f = transfer_copy_all [OF t' len raw]
    have "install_new_data ?v (nd\<lparr>m_buffer := nb1\<rparr>) w3
        = (?v\<lparr>m_data := nd\<lparr>m_buffer := nb1\<rparr>\<rparr>, destroyed (length xs) w3)"
      by (intro install_new_data_live) simp_all
    with r f False show ?thesis
      by (intro exI [of _ "m_buffer (m_data ?v)"] exI [of _ nb1]) (simp add: transfer_op_def set_buffer_def)
  qed
  then obtain old nb1 where
    r: "EmplaceBack_return ((set_buffer old ?v)\<lparr>m_data := nd\<lparr>m_buffer := nb1\<rparr>\<rparr>)
            (destroyed (length xs) (did (transfer_op env) (length xs) w2)) = Ok r (v', w')"
    and l: "length nb1 = length nb"
    and n: "\<forall>j<length nb. nb1 ! j = (if j < length xs then Some (xs ! j) else nb ! j)"
    by blast
  let ?v1 = "(set_buffer old ?v)\<lparr>m_data := nd\<lparr>m_buffer := nb1\<rparr>\<rparr>"
  have "m_size ?v1 < m_capacity (m_data ?v1)" "m_size ?v1 < 2 ^ 63"
    using lt ndeq assms(1,2) by simp_all
  from EmplaceBack_return_ok [OF this] r
  have r': "r = length xs" "v' = ?v1\<lparr>m_size := Suc (length xs)\<rparr>"
    "w' = destroyed (length xs) (did (transfer_op env) (length xs) w2)"
    by auto
  have "nb1 = map Some (take (length xs) xs @ x # drop (length xs) xs) @ replicate (?m - Suc (length xs)) None"
    using l n nb lt by (intro filled_block) (auto simp: nth_list_update)
  then have "nb1 = map Some (xs @ [x]) @ replicate (?m - Suc (length xs)) None" by simp
  with r' ndeq have "v' = vec (xs @ [x]) ?m" by (intro vec_eqI) simp_all
  with r' w2 w1 show ?thesis by simp
qed

subsection \<open>Emplace\<close>

lemma Emplace_append:
  assumes "length xs < cap" "cap < 2 ^ 63" "Emplace env (int (length xs)) ctor x (vec xs cap) w = Ok r (v', w')"
  shows "r = length xs \<and> v' = vec (xs @ [x]) cap \<and> w' = did ctor 1 w"
proof -
  let ?v = "vec xs cap"
  let ?buf = "map Some xs @ replicate (cap - length xs) None"
  obtain fail b w1 where c: "construct_at env ctor x ?buf (length xs) w = (fail, b, w1)"
    by (cases "construct_at env ctor x ?buf (length xs) w") auto
  from assms(1,3) c have nf: "\<not> fail"
    by (auto simp: Emplace_def split: if_splits)
  have "length xs < length ?buf" "?buf ! length xs = None" using assms(1) by (simp_all add: nth_append)
  from construct_at_fresh [OF c nf this] have b: "b = ?buf[length xs := Some x]" and w1: "w1 = did ctor 1 w"
    by simp_all
  from assms(1,3) c nf have r: "Emplace_return (length xs) (set_buffer b ?v) w1 = Ok r (v', w')"
    by (simp add: Emplace_def)
  have "Emplace_return (length xs) (set_buffer b ?v) w1 = Ok (length xs) ((set_buffer b ?v)\<lparr>m_size := Suc (length xs)\<rparr>, w1)"
    using Emplace_return_ok [of "set_buffer b ?v" "length xs" w1] assms(1,2) by simp
  with r have r': "r = length xs" "v' = (set_buffer b ?v)\<lparr>m_size := Suc (length xs)\<rparr>" "w' = w1"
    by auto
  have "b = map Some (xs @ [x]) @ replicate (cap - Suc (length xs)) None"
    using assms(1) b by (intro buffer_eqI) (auto simp: nth_append nth_list_update)
  with r' have "v' = vec (xs @ [x]) cap" by (intro vec_eqI) simp_all
  with r' w1 show ?thesis by simp
qed

lemma Emplace_realloc_vec:
  assumes "length xs = cap" "cap < 2 ^ 63" "c \<le> length xs"
    and "Emplace_realloc env c ctor x (vec xs cap) w = Ok r (v', w')"
    and "fits env (max 1 (cap * 2))"
  shows "r = c \<and> v' = vec (take c xs @ x # drop c xs) (max 1 (cap * 2))
       \<and> w' = destroyed (length xs) (did (transfer_op env) (length xs) (did ctor 1 (did (OpNew (max 1 (cap * 2) * size_of env)) 1 w)))"
proof -
  let ?v = "vec xs cap"
  let ?m = "max 1 (cap * 2)"
  let ?n = "length xs"
  let ?k = "cap - length xs"
  let ?src = "map Some xs @ replicate ?k None"
  have m: "(if m_size ?v = 0 then 1 else (Capacity ?v * 2) mod size_t_max) = ?m"
    using assms(1,2) by (simp add: double_no_wrap max_def)
  have m0: "?m \<noteq> 0" by simp
  have lt: "?n < ?m" using assms(1) by (simp add: max_def)
  from assms(4) m obtain nd w1 where nd: "RawMemory_new env ?m w = Ok nd w1"
    by (auto simp: Emplace_realloc_def split: outcome.splits)
  from RawMemory_new_Ok_eq [OF nd m0 assms(5)]
  have ndeq: "nd = \<lparr>m_buffer = replicate ?m None, m_capacity = ?m\<rparr>" and w1: "w1 = did (OpNew (?m * size_of env)) 1 w"
    by simp_all
  obtain fail nb w2 where ct: "construct_at env ctor x (m_buffer nd) c w1 = (fail, nb, w2)"
    by (cases "construct_at env ctor x (m_buffer nd) c w1") auto
  from assms(4) m nd ct have nf: "\<not> fail"
    by (auto simp: Emplace_realloc_def split: if_splits prod.splits)
  have "c < length (m_buffer nd)" "m_buffer nd ! c = None"
    using lt ndeq assms(3) by simp_all
  from construct_at_fresh [OF ct nf this]
  have nb: "nb = (replicate ?m None)[c := Some x]" and w2: "w2 = did ctor 1 w1"
    using ndeq by simp_all
  have lnb: "length nb = ?m" using nb by simp
  have raw1: "\<forall>j. 0 \<le> j \<and> j < 0 + c \<longrightarrow> nb ! j = None" using lt nb assms(3) by simp
  have "\<exists>old nb2. Emplace_return c ((set_buffer old ?v)\<lparr>m_data := nd\<lparr>m_buffer := nb2\<rparr>\<rparr>)
            (destroyed ?n (did (transfer_op env) ?n w2)) = Ok r (v', w')
        \<and> length nb2 = ?m
        \<and> (\<forall>j<?m. nb2 ! j = (if j < c then Some (xs ! j) else if j = c then Some x
                            else if j \<le> ?n then Some (xs ! (j - 1)) else None))"
  proof (cases "use_move env")
    case True
    with assms(4) m nd ct nf obtain old nb1 w3 old1 nb2 w4 where
      t1: "uninitialized_move_n env (m_buffer (m_data ?v)) 0 c nb 0 w2 = Ok () ((old, nb1), w3)"
      and t2: "uninitialized_move_n env old c (m_size ?v - c) nb1 (c + 1) w3 = Ok () ((old1, nb2), w4)"
      and r: "(case install_new_data (set_buffer old1 ?v) (nd\<lparr>m_buffer := nb2\<rparr>) w4 of
                (v1, w5) \<Rightarrow> Emplace_return c v1 w5) = Ok r (v', w')"
      by (auto simp: Emplace_realloc_def split: outcome.splits prod.splits)
    from t1 have t1': "uninitialized_move_n env ?src 0 c nb 0 w2 = Ok () ((old, nb1), w3)" by simp
    have "length nb1 = length nb
       \<and> (\<forall>j<length nb. nb1 ! j = (if 0 \<le> j \<and> j < 0 + c then Some (xs ! (0 + (j - 0))) else nb ! j))
       \<and> (\<exists>ys. old = map Some ys @ replicate ?k None \<and> length ys = length xs
              \<and> (\<forall>j<length xs. \<not> (0 \<le> j \<and> j < 0 + c) \<longrightarrow> ys ! j = xs ! j))
       \<and> w3 = did MoveCtor c w2"
      using assms(3) lt lnb raw1 by (intro move_into_raw [OF t1']) simp_all
    then obtain ys where f1: "length nb1 = ?m" "\<forall>j<?m. nb1 ! j = (if j < c then Some (xs ! j) else nb ! j)"
      and old: "old = map Some ys @ replicate ?k None" "length ys = ?n" "\<forall>j<?n. c \<le> j \<longrightarrow> ys ! j = xs ! j"
      and w3: "w3 = did MoveCtor c w2"
      using lnb by auto
    from t2 old have t2': "uninitialized_move_n env (map Some ys @ replicate ?k None) c (?n - c) nb1 (c + 1) w3
        = Ok () ((old1, nb2), w4)" by simp
    have raw2: "\<forall>j. c + 1 \<le> j \<and> j < c + 1 + (?n - c) \<longrightarrow> nb1 ! j = None"
      using f1 nb lt assms(3) by auto
    have "length nb2 = length nb1
       \<and> (\<forall>j<length nb1. nb2 ! j = (if c + 1 \<le> j \<and> j < c + 1 + (?n - c) then Some (ys ! (c + (j - (c + 1)))) else nb1 ! j))
       \<and> (\<exists>zs. old1 = map Some zs @ replicate ?k None \<and> length zs = length ys
              \<and> (\<forall>j<length ys. \<not> (c \<le> j \<and> j < c + (?n - c)) \<longrightarrow> zs ! j = ys ! j))
       \<and> w4 = did MoveCtor (?n - c) w3"
      using assms(3) lt f1 old raw2 by (intro move_into_raw [OF t2']) simp_all
    then obtain zs where f2: "length nb2 = ?m"
      "\<forall>j<?m. nb2 ! j = (if c + 1 \<le> j \<and> j < c + 1 + (?n - c) then Some (ys ! (c + (j - (c + 1)))) else nb1 ! j)"
      and old1: "old1 = map Some zs @ replicate ?k None" "length zs = ?n"
      and w4: "w4 = did MoveCtor (?n - c) w3"
      using f1 old by auto
    have "install_new_data (set_buffer old1 ?v) (nd\<lparr>m_buffer := nb2\<rparr>) w4
        = ((set_buffer old1 ?v)\<lparr>m_data := nd\<lparr>m_buffer := nb2\<rparr>\<rparr>, destroyed (length zs) w4)"
      using old1 by (intro install_new_data_live) simp_all
    with r old1 have r': "Emplace_return c ((set_buffer old1 ?v)\<lparr>m_data := nd\<lparr>m_buffer := nb2\<rparr>\<rparr>) (destroyed ?n w4) = Ok r (v', w')"
      by simp
    have w: "w4 = did (transfer_op env) ?n w2"
      using w4 w3 True assms(3) by (simp add: did_did transfer_op_def)
    have "\<forall>j<?m. nb2 ! j = (if j < c then Some (xs ! j) else if j = c then Some x
                            else if j \<le> ?n then Some (xs ! (j - 1)) else None)"
    proof (intro allI impI)
      fix j assume j: "j < ?m"
      consider "j < c" | "j = c" | "c < j \<and> j \<le> ?n" | "?n < j" by linarith
      then show "nb2 ! j = (if j < c then Some (xs ! j) else if j = c then Some x
                            else if j \<le> ?n then Some (xs ! (j - 1)) else None)"
      proof cases
        case 1 with f1 f2 j show ?thesis by simp
      next
        case 2 with f1 f2 j nb show ?thesis by simp
      next
        case 3
        then have "c + (j - (c + 1)) = j - 1" "c \<le> j - 1" "j - 1 < ?n" by arith+
        with 3 f2 j old show ?thesis by simp
      next
        case 4 with f1 f2 j nb assms(3) show ?thesis by simp
      qed
    qed
    with r' w f2 show ?thesis by blast
  next
    case False
    with assms(4) m nd ct nf obtain nb1 w3 nb2 w4 where
      t1: "uninitialized_copy_n env (m_buffer (m_data ?v)) 0 c nb 0 w2 = Ok () (nb1, w3)"
      and t2: "uninitialized_copy_n env (m_buffer (m_data ?v)) c (m_size ?v - c) nb1 (c + 1) w3 = Ok () (nb2, w4)"
      and r: "(case install_new_data ?v (nd\<lparr>m_buffer := nb2\<rparr>) w4 of
                (v1, w5) \<Rightarrow> Emplace_return c v1 w5) = Ok r (v', w')"
      by (auto simp: Emplace_realloc_def split: outcome.splits prod.splits)
    from t1 have t1': "uninitialized_copy_n env ?src 0 c nb 0 w2 = Ok () (nb1, w3)" by simp
    have "length nb1 = length nb
       \<and> (\<forall>j<length nb. nb1 ! j = (if 0 \<le> j \<and> j < 0 + c then Some (xs ! (0 + (j - 0))) else nb ! j))
       \<and> w3 = did CopyCtor c w2"
      using assms(3) lt lnb raw1 by (intro copy_into_raw [OF t1']) simp_all
    then have f1: "length nb1 = ?m" "\<forall>j<?m. nb1 ! j = (if j < c then Some (xs ! j) else nb ! j)"
      and w3: "w3 = did CopyCtor c w2"
      using lnb by auto
    from t2 have t2': "uninitialized_copy_n env ?src c (?n - c) nb1 (c + 1) w3 = Ok () (nb2, w4)" by simp
    have raw2: "\<forall>j. c + 1 \<le> j \<and> j < c + 1 + (?n - c) \<longrightarrow> nb1 ! j = None"
      using f1 nb lt assms(3) by auto
    have "length nb2 = length nb1
       \<and> (\<forall>j<length nb1. nb2 ! j = (if c + 1 \<le> j \<and> j < c + 1 + (?n - c) then Some (xs ! (c + (j - (c + 1)))) else nb1 ! j))
       \<and> w4 = did CopyCtor (?n - c) w3"
      using assms(3) lt f1 raw2 by (intro copy_into_raw [OF t2']) simp_all
    then have f2: "length nb2 = ?m"
      "\<forall>j<?m. nb2 ! j = (if c + 1 \<le> j \<and> j < c + 1 + (?n - c) then Some (xs ! (c + (j - (c + 1)))) else nb1 ! j)"
      and w4: "w4 = did CopyCtor (?n - c) w3"
      using f1 by auto
    have "install_new_data ?v (nd\<lparr>m_buffer := nb2\<rparr>) w4
        = (?v\<lparr>m_data := nd\<lparr>m_buffer := nb2\<rparr>\<rparr>, destroyed ?n w4)"
      by (intro install_new_data_live) simp_all
    with r have r': "Emplace_return c ((set_buffer (m_buffer (m_data ?v)) ?v)\<lparr>m_data := nd\<lparr>m_buffer := nb2\<rparr>\<rparr>) (destroyed ?n w4) = Ok r (v', w')"
      by (simp add: set_buffer_def)
    have w: "w4 = did (transfer_op env) ?n w2"
      using w4 w3 False assms(3) by (simp add: did_did transfer_op_def)
    have "\<forall>j<?m. nb2 ! j = (if j < c then Some (xs ! j) else if j = c then Some x
                            else if j \<le> ?n then Some (xs ! (j - 1)) else None)"
    proof (intro allI impI)
      fix j assume j: "j < ?m"
      consider "j < c" | "j = c" | "c < j \<and> j \<le> ?n" | "?n < j" by linarith
      then show "nb2 ! j = (if j < c then Some (xs ! j) else if j = c then Some x
                            else if j \<le> ?n then Some (xs ! (j - 1)) else None)"
      proof cases
        case 1 with f1 f2 j show ?thesis by simp
      next
        case 2 with f1 f2 j nb show ?thesis by simp
      next
        case 3
        then have "c + (j - (c + 1)) = j - 1" by arith
        with 3 f2 j show ?thesis by simp
      next
        case 4 with f1 f2 j nb assms(3) show ?thesis by simp
      qed
    qed
    with r' w f2 show ?thesis by blast
  qed
  then obtain old nb2 where
    r: "Emplace_return c ((set_buffer old ?v)\<lparr>m_data := nd\<lparr>m_buffer := nb2\<rparr>\<rparr>)
            (destroyed ?n (did (transfer_op env) ?n w2)) = Ok r (v', w')"
    and l: "length nb2 = ?m"
    and n: "\<forall>j<?m. nb2 ! j = (if j < c then Some (xs ! j) else if j = c then Some x
                            else if j \<le> ?n then Some (xs ! (j - 1)) else None)"
    by blast
  let ?v1 = "(set_buffer old ?v)\<lparr>m_data := nd\<lparr>m_buffer := nb2\<rparr>\<rparr>"
  have "m_size ?v1 < 2 ^ 63" using assms(1,2) by simp
  from Emplace_return_ok [OF this] r
  have r': "r = c" "v' = ?v1\<lparr>m_size := Suc ?n\<rparr>"
    "w' = destroyed ?n (did (transfer_op env) ?n w2)"
    by auto
  have "nb2 = map Some (take c xs @ x # drop c xs) @ replicate (?m - Suc ?n) None"
    using l lt assms(3) n by (rule filled_block)
  with r' ndeq assms(3) have "v' = vec (take c xs @ x # drop c xs) ?m" by (intro vec_eqI) simp_all
  with r' w2 w1 show ?thesis by simp
qed

lemma no_MoveAsg_failure: "\<forall>t. \<not> throws env MoveAsg t \<Longrightarrow> \<forall>t. \<not> fails env MoveAsg t"
  by (simp add: fails_def)

lemma Emplace_shift_vec:
  assumes "length xs < cap" "cap < 2 ^ 63" "c < length xs" "\<forall>t. \<not> fails env MoveAsg t"
    and "Emplace_shift env c ctor x (vec xs cap) w = Ok r (v', w')"
  shows "r = c \<and> v' = vec (take c xs @ x # drop c xs) cap
       \<and> w' = destroyed 1 (did MoveAsg (length xs - c) (did MoveCtor 1 (did ctor 1 w)))"
proof -
  let ?v = "vec xs cap"
  let ?n = "length xs"
  let ?buf = "map Some xs @ replicate (cap - ?n) None"
  let ?last = "xs ! (?n - 1)"
  from assms(3) have n0: "0 < ?n" by auto
  have lenb: "length ?buf = cap" using assms(1) by simp
  from assms(5) n0 have a: "\<not> fails env ctor (tick w)"
    by (auto simp: Emplace_shift_def attempt_eq split: if_splits)
  then have a': "attempt env ctor w = (False, did ctor 1 w)" by (rule attempt_ok)
  let ?w1 = "did ctor 1 w"
  have sl: "slot ?buf (?n - 1) = Some ?last" using n0 by (simp add: prefix_slot)
  obtain fail b0 w2 where ct: "construct_at env MoveCtor ?last ?buf ?n ?w1 = (fail, b0, w2)"
    by (cases "construct_at env MoveCtor ?last ?buf ?n ?w1") auto
  from assms(5) n0 a' sl ct have nf: "\<not> fail"
    by (auto simp: Emplace_shift_def move_construct_within_def split: if_splits)
  have "?n < length ?buf" "?buf ! ?n = None" using assms(1) by (simp_all add: nth_append)
  from construct_at_fresh [OF ct nf this]
  have b0: "b0 = ?buf[?n := Some ?last]" and w2: "w2 = did MoveCtor 1 ?w1" by simp_all
  define b1 where "b1 = ?buf[?n := Some ?last, ?n - 1 := Some (moved_from env ?last)]"
  have mc: "move_construct_within env ?buf (?n - 1) ?n ?w1 = (False, b1, w2)"
    using sl ct nf b0 by (simp add: move_construct_within_def b1_def)
  have lb1: "length b1 = cap" using lenb by (simp add: b1_def)
  have b1nth: "b1 ! j = (if j = ?n - 1 then Some (moved_from env ?last) else if j = ?n then Some ?last
                          else if j < ?n then Some (xs ! j) else None)" if "j < cap" for j
    using that assms(1) n0 by (auto simp: nth_list_update nth_append b1_def)
  define k where "k = ?n - 1 - c"
  have dl: "Suc (c + k) = ?n" using assms(3) by (simp add: k_def)
  have pre: "\<forall>i\<le>k. slot b1 (c + i) \<noteq> None"
  proof (intro allI impI)
    fix i assume "i \<le> k"
    then have "c + i < ?n" using assms(3) by (simp add: k_def)
    with assms(1) have "c + i < cap" by simp
    from b1nth [OF this] \<open>c + i < ?n\<close> \<open>c + i < cap\<close> lb1 show "slot b1 (c + i) \<noteq> None"
      by (simp add: slot_def)
  qed
  have "\<exists>b'. move_backward env b1 c k ?n w2 = Ok () (b', did MoveAsg k w2)
            \<and> length b' = cap
            \<and> (\<forall>j<cap. b' ! j =
                 (if c < j \<and> j \<le> c + k then b1 ! (j - 1)
                  else if j = c \<and> 0 < k then map_option (moved_from env) (b1 ! j)
                  else b1 ! j))"
    using move_backward_shift [OF assms(4) pre, of w2] unfolding dl lb1 .
  then obtain b2 where mb: "move_backward env b1 c k ?n w2 = Ok () (b2, did MoveAsg k w2)"
    and lb2: "length b2 = cap"
    and b2nth: "\<forall>j<cap. b2 ! j =
                 (if c < j \<and> j \<le> c + k then b1 ! (j - 1)
                  else if j = c \<and> 0 < k then map_option (moved_from env) (b1 ! j)
                  else b1 ! j)"
    by blast
  define w3 where "w3 = did MoveAsg k w2"
  have ccap: "c < cap" using assms(1,3) by simp
  have "b1 ! c \<noteq> None" using b1nth [OF ccap] assms(3) by simp
  with b2nth ccap have "b2 ! c \<noteq> None" by (cases "0 < k") auto
  then obtain y where y: "slot b2 c = Some y" using ccap lb2 by (auto simp: slot_def)
  from assms(4) have as: "assign_at env MoveAsg x b2 c w3 = (False, b2[c := Some x], did MoveAsg 1 w3)"
    using y by (simp add: assign_at_def attempt_ok)
  define b3 where "b3 = b2[c := Some x]"
  define w4 where "w4 = did MoveAsg 1 w3"
  from assms(5) n0 a' mc mb ccap as
  have r: "Emplace_return c (set_buffer b3 ?v) (log_event Destroyed w4) = Ok r (v', w')"
    by (simp add: Emplace_shift_def k_def w3_def b3_def w4_def)
  have "m_size (set_buffer b3 ?v) < 2 ^ 63" using assms(1,2) by simp
  from Emplace_return_ok [OF this] r
  have r': "r = c" "v' = (set_buffer b3 ?v)\<lparr>m_size := Suc ?n\<rparr>" "w' = log_event Destroyed w4"
    by auto
  have lb3: "length b3 = cap" using lb2 by (simp add: b3_def)
  have nth3: "\<forall>j<cap. b3 ! j = (if j < c then Some (xs ! j) else if j = c then Some x
                            else if j \<le> ?n then Some (xs ! (j - 1)) else None)"
  proof (intro allI impI)
    fix j assume j: "j < cap"
    consider "j < c" | "j = c" | "c < j \<and> j \<le> ?n - 1" | "j = ?n" | "?n < j" using assms(3) by linarith
    then show "b3 ! j = (if j < c then Some (xs ! j) else if j = c then Some x
                            else if j \<le> ?n then Some (xs ! (j - 1)) else None)"
    proof cases
      case 1
      then have f: "j \<noteq> c" "\<not> c < j" "j \<noteq> ?n - 1" "j \<noteq> ?n" "j < ?n" using assms(3) by arith+
      from f j lb2 have "b3 ! j = b2 ! j" by (simp add: b3_def)
      also from b2nth j f have "\<dots> = b1 ! j" by simp
      also from b1nth [OF j] f have "\<dots> = Some (xs ! j)" by simp
      finally show ?thesis using 1 by simp
    next
      case 2
      with j lb2 show ?thesis by (simp add: b3_def)
    next
      case 3
      then have j1: "j - 1 < cap" "j - 1 \<noteq> ?n - 1" "j - 1 \<noteq> ?n" "j - 1 < ?n" "j \<le> c + k" "j \<noteq> c" "\<not> j < c"
        using j by (simp_all add: k_def) arith+
      from j1 j lb2 have "b3 ! j = b2 ! j" by (simp add: b3_def)
      also from 3 b2nth j j1 have "\<dots> = b1 ! (j - 1)" by simp
      also have "\<dots> = Some (xs ! (j - 1))" using b1nth [OF j1(1)] j1 by simp
      finally show ?thesis using 3 j1 by simp
    next
      case 4
      then have f: "\<not> j \<le> c + k" "j \<noteq> c" "\<not> j < c" "j \<noteq> ?n - 1" using assms(3) by (simp_all add: k_def)
      from f j lb2 have "b3 ! j = b2 ! j" by (simp add: b3_def)
      also from b2nth j f have "\<dots> = b1 ! j" by simp
      also from b1nth [OF j] f 4 have "\<dots> = Some (xs ! (j - 1))" by simp
      finally show ?thesis using 4 f by simp
    next
      case 5
      then have f: "\<not> j \<le> c + k" "j \<noteq> c" "\<not> j < c" "j \<noteq> ?n - 1" "j \<noteq> ?n" "\<not> j < ?n" "\<not> j \<le> ?n"
        using assms(3) by (simp_all add: k_def)
      from f j lb2 have "b3 ! j = b2 ! j" by (simp add: b3_def)
      also from b2nth j f have "\<dots> = b1 ! j" by simp
      also from b1nth [OF j] f have "\<dots> = None" by simp
      finally show ?thesis using f by simp
    qed
  qed
  have "b3 = map Some (take c xs @ x # drop c xs) @ replicate (cap - Suc ?n) None"
    using lb3 assms(1,3) nth3 by (intro filled_block) simp_all
  with r' assms(3) have "v' = vec (take c xs @ x # drop c xs) cap" by (intro vec_eqI) simp_all
  moreover have "w' = destroyed 1 (did MoveAsg (?n - c) (did MoveCtor 1 (did ctor 1 w)))"
  proof -
    have e: "k + 1 = ?n - c" using assms(3) by (simp add: k_def)
    have "w4 = did MoveAsg (k + 1) w2" by (simp only: w4_def w3_def did_did)
    with e have "w4 = did MoveAsg (?n - c) w2" by simp
    with r' w2 show ?thesis by (simp add: destroyed_def log_event_def)
  qed
  ultimately show ?thesis using r' by simp
qed

lemma Emplace_vec:
  assumes "length xs \<le> cap" "cap < 2 ^ 63" "0 \<le> pos" "pos \<le> int (length xs)"
    and "\<forall>t. \<not> fails env MoveAsg t"
    and "Emplace env pos ctor x (vec xs cap) w = Ok r (v', w')"
    and "length xs = cap \<longrightarrow> fits env (max 1 (cap * 2))"
  shows "r = nat pos
       \<and> v' = vec (take (nat pos) xs @ x # drop (nat pos) xs) (if length xs < cap then cap else max 1 (cap * 2))"
proof (cases "length xs < cap")
  case True
  show ?thesis
  proof (cases "pos = int (length xs)")
    case e: True
    with Emplace_append [OF True assms(2), of env ctor x w r v' w'] assms(6) True show ?thesis
      by simp
  next
    case False
    with assms(3,4) have c: "nat pos < length xs" by simp
    from assms(6,3,4) True False have "Emplace_shift env (nat pos) ctor x (vec xs cap) w = Ok r (v', w')"
      by (simp add: Emplace_def Let_def)
    from Emplace_shift_vec [OF True assms(2) c assms(5) this] True show ?thesis by simp
  qed
next
  case False
  with assms(1) have e: "length xs = cap" by simp
  from assms(3,4) have c: "nat pos \<le> length xs" by simp
  from assms(6,3,4) False have "Emplace_realloc env (nat pos) ctor x (vec xs cap) w = Ok r (v', w')"
    by (simp add: Emplace_def Let_def)
  moreover from assms(7) e have "fits env (max 1 (cap * 2))" by simp
  ultimately show ?thesis using Emplace_realloc_vec [OF e assms(2) c] False by simp
qed

subsection \<open>Erase\<close>

lemma nth_erased:
  assumes "c < length ys" "j < length ys - 1"
  shows "(take c ys @ drop (Suc c) ys) ! j = (if j < c then ys ! j else ys ! Suc j)"
proof (cases "j < c")
  case True
  with assms show ?thesis by (simp add: nth_append)
next
  case False
  then obtain i where i: "j = c + i" by (metis le_iff_add not_less)
  with assms have "Suc c + i < length ys" by simp
  with assms i show ?thesis by (simp add: nth_append min_def)
qed

lemma Erase_vec:
  assumes "length ys \<le> cap" "0 \<le> pos" "pos < int (length ys)" "\<forall>t. \<not> fails env MoveAsg t"
  shows "Erase env pos (vec ys cap) w
       = Ok (nat pos) (vec (take (nat pos) ys @ drop (Suc (nat pos)) ys) cap,
                       destroyed 1 (did MoveAsg (length ys - Suc (nat pos)) w))"
proof -
  let ?v = "vec ys cap"
  let ?n = "length ys"
  let ?c = "nat pos"
  let ?buf = "map Some ys @ replicate (cap - ?n) None"
  let ?k = "?n - Suc ?c"
  from assms(2,3) have c: "?c < ?n" by simp
  then have ck: "?c + ?k = ?n - 1" by simp
  have lenb: "length ?buf = cap" using assms(1) by simp
  have pre: "\<forall>i\<le>?k. slot ?buf (?c + i) \<noteq> None"
  proof (intro allI impI)
    fix i assume "i \<le> ?k"
    then have "?c + i < ?n" using c by arith
    then show "slot ?buf (?c + i) \<noteq> None" by (simp add: prefix_slot)
  qed
  have "\<exists>b'. move_range env ?buf (Suc ?c) ?k ?c w = Ok () (b', did MoveAsg ?k w)
            \<and> length b' = cap
            \<and> (\<forall>j<cap. b' ! j =
                 (if ?c \<le> j \<and> j < ?c + ?k then ?buf ! Suc j
                  else if j = ?c + ?k \<and> 0 < ?k then map_option (moved_from env) (?buf ! j)
                  else ?buf ! j))"
    using move_range_shift [OF assms(4) pre, of w] unfolding lenb .
  then obtain b' where mr: "move_range env ?buf (Suc ?c) ?k ?c w = Ok () (b', did MoveAsg ?k w)"
    and lb: "length b' = cap"
    and nth: "\<forall>j<cap. b' ! j =
                 (if ?c \<le> j \<and> j < ?c + ?k then ?buf ! Suc j
                  else if j = ?c + ?k \<and> 0 < ?k then map_option (moved_from env) (?buf ! j)
                  else ?buf ! j)"
    by blast
  let ?w1 = "did MoveAsg ?k w"
  have lastcap: "?n - 1 < cap" using c assms(1) by simp
  have lastn: "?n - 1 < ?n" using c by simp
  then have bl: "?buf ! (?n - 1) = Some (ys ! (?n - 1))"
    by (simp only: nth_append length_map if_True nth_map)
  have "b' ! (?n - 1) \<noteq> None"
  proof (cases "0 < ?k")
    case True
    with nth lastcap ck bl show ?thesis by simp
  next
    case False
    then have "?c = ?n - 1" using c by simp
    with nth lastcap False bl show ?thesis by simp
  qed
  then obtain y where y: "slot b' (?n - 1) = Some y" using lastcap lb by (auto simp: slot_def)
  have ne: "?n \<noteq> 0" using c by auto
  have pb: "PopBack (set_buffer b' ?v) ?w1
      = Ok () ((set_buffer (b'[?n - 1 := None]) ?v)\<lparr>m_size := ?n - 1\<rparr>, destroyed 1 ?w1)"
    using ne y by (simp add: PopBack_def destroy_at_live set_buffer_def)
  have e: "Erase env pos ?v w = Ok ?c ((set_buffer (b'[?n - 1 := None]) ?v)\<lparr>m_size := ?n - 1\<rparr>, destroyed 1 ?w1)"
    using assms(2,3) mr pb by (simp add: Erase_def Let_def)
  have "b'[?n - 1 := None] = map Some (take ?c ys @ drop (Suc ?c) ys) @ replicate (cap - ?n + 1) None"
  proof (rule buffer_eqI)
    show "length (b'[?n - 1 := None]) = length (take ?c ys @ drop (Suc ?c) ys) + (cap - ?n + 1)"
      using lb c assms(1) by simp
  next
    fix j assume "j < length (take ?c ys @ drop (Suc ?c) ys)"
    then have j: "j < ?n - 1" using c by simp
    then have jc: "j < cap" "j \<noteq> ?n - 1" "Suc j < ?n" using lastcap by simp_all
    have "b' ! j = (if j < ?c then Some (ys ! j) else Some (ys ! Suc j))"
      using nth jc j ck by (auto simp: nth_append)
    with nth_erased [OF c j] jc lb
    show "b'[?n - 1 := None] ! j = Some ((take ?c ys @ drop (Suc ?c) ys) ! j)"
      by (simp add: nth_list_update)
  next
    fix j assume "length (take ?c ys @ drop (Suc ?c) ys) \<le> j"
      "j < length (take ?c ys @ drop (Suc ?c) ys) + (cap - ?n + 1)"
    then have j: "?n - 1 \<le> j" "j < cap" using c assms(1) by simp_all
    show "b'[?n - 1 := None] ! j = None"
    proof (cases "j = ?n - 1")
      case True
      with j lb show ?thesis by simp
    next
      case False
      with j have "?n \<le> j" by simp
      with nth j ck c False lb show ?thesis by (simp add: nth_append nth_list_update)
    qed
  qed
  then have "(set_buffer (b'[?n - 1 := None]) ?v)\<lparr>m_size := ?n - 1\<rparr> = vec (take ?c ys @ drop (Suc ?c) ys) cap"
    using c assms(1) by (intro vec_eqI) (simp_all add: Suc_diff_le)
  with e show ?thesis by simp
qed

text \<open>
  When no move assignment fails, an insertion that returns has placed \<open>x\<close> at \<open>pos\<close>
  and erasing at \<open>pos\<close> restores the sequence.
\<close>

lemma insert_then_erase_restores:
  assumes "length xs \<le> cap" "cap < 2 ^ 63" "0 \<le> pos" "pos \<le> int (length xs)"
    and "\<forall>t. \<not> throws env MoveAsg t"
    and "Insert env pos ctor x (vec xs cap) w = Ok r (v1, w1)"
    and "length xs = cap \<longrightarrow> fits env (max 1 (cap * 2))"
  shows "\<exists>cap1 w2. v1 = vec (take (nat pos) xs @ x # drop (nat pos) xs) cap1
           \<and> Erase env pos v1 w1 = Ok (nat pos) (vec xs cap1, w2)"
proof -
  let ?c = "nat pos"
  let ?ys = "take ?c xs @ x # drop ?c xs"
  let ?cap1 = "if length xs < cap then cap else max 1 (cap * 2)"
  note nf = no_MoveAsg_failure [OF assms(5)]
  from assms(6) have "Emplace env pos ctor x (vec xs cap) w = Ok r (v1, w1)" by (simp add: Insert_def)
  from Emplace_vec [OF assms(1-4) nf this assms(7)] have v1: "v1 = vec ?ys ?cap1" by simp
  from assms(3,4) have c: "?c \<le> length xs" by simp
  have l: "length ?ys \<le> ?cap1" using assms(1) c by (auto simp: max_def)
  have p: "pos < int (length ?ys)" using assms(3,4) c by simp
  from Erase_vec [OF l assms(3) p nf, of w1] erase_inserted [OF c, of x] v1
  show ?thesis by auto
qed

section \<open>The constructor that transfers the elements to a new block\<close>

text \<open>
  Every step of a reallocation extends the trace, and only a step of kind \<open>k\<close> adds an
  event of kind \<open>k\<close>.
\<close>

lemma at_most_iff:
  "at_most m k w w' \<longleftrightarrow> (\<exists>es. trace w' = trace w @ es \<and> attempts_of k es \<le> m)"
proof
  assume "at_most m k w w'"
  then have "trace w' = trace w @ drop (length (trace w)) (trace w')"
    and "attempts_of k (drop (length (trace w)) (trace w')) \<le> m"
    by (simp_all add: at_most_def grows_def new_events_def) (metis append_take_drop_id)
  then show "\<exists>es. trace w' = trace w @ es \<and> attempts_of k es \<le> m" by blast
next
  assume "\<exists>es. trace w' = trace w @ es \<and> attempts_of k es \<le> m"
  then show "at_most m k w w'" by (auto simp: at_most_def grows_def new_events_def)
qed

lemma attempts_of_simps [simp]:
  "attempts_of k [] = 0"
  "attempts_of k (e # es) = (if e = Did k \<or> e = Threw k then 1 else 0) + attempts_of k es"
  "attempts_of k (es @ fs) = attempts_of k es + attempts_of k fs"
  by (simp_all add: attempts_of_def)

lemma at_most_refl [simp]: "at_most m k w w"
  by (simp add: at_most_iff)

lemma at_most_event:
  "e \<noteq> Did k \<Longrightarrow> e \<noteq> Threw k \<Longrightarrow> at_most m k w w1 \<Longrightarrow> at_most m k w (log_event e w1)"
  by (auto simp: at_most_iff log_event_def)

lemma at_most_attempt:
  "attempt env k' w1 = (f, w2) \<Longrightarrow> k' \<noteq> k \<Longrightarrow> at_most m k w w1 \<Longrightarrow> at_most m k w w2"
  by (auto simp: at_most_iff attempt_eq)

lemma at_most_attempt_own:
  "attempt env k' w1 = (f, w2) \<Longrightarrow> at_most 0 k w w1 \<Longrightarrow> at_most (own k' k) k w w2"
  by (auto simp: at_most_iff attempt_eq own_def)

lemma at_most_construct_at:
  "construct_at env k' x buf i w1 = (f, b, w2) \<Longrightarrow> k' \<noteq> k \<Longrightarrow> at_most m k w w1 \<Longrightarrow> at_most m k w w2"
  by (auto simp: construct_at_def attempt_eq at_most_iff log_event_def split: if_splits)

lemma at_most_construct_at_own:
  "construct_at env k' x buf i w1 = (f, b, w2) \<Longrightarrow> at_most 0 k w w1 \<Longrightarrow> at_most (own k' k) k w w2"
  by (auto simp: construct_at_def attempt_eq at_most_iff log_event_def own_def split: if_splits)

lemma at_most_destroy_at:
  "destroy_at buf i w1 = (b, w2) \<Longrightarrow> at_most m k w w1 \<Longrightarrow> at_most m k w w2"
  by (auto simp: destroy_at_def at_most_event split: option.splits)

lemma at_most_destroy_n:
  "destroy_n buf first n w1 = (b, w2) \<Longrightarrow> at_most m k w w1 \<Longrightarrow> at_most m k w w2"
proof (induction n arbitrary: buf first w1)
  case 0
  then show ?case by simp
next
  case (Suc n)
  obtain b1 w1' where d: "destroy_at buf first w1 = (b1, w1')" by (cases "destroy_at buf first w1") auto
  with Suc.prems(1) have "destroy_n b1 (Suc first) n w1' = (b, w2)" by simp
  moreover from d Suc.prems(2) have "at_most m k w w1'" by (rule at_most_destroy_at)
  ultimately show ?case by (rule Suc.IH)
qed

lemma at_most_RawMemory_dtor: "at_most m k w w1 \<Longrightarrow> at_most m k w (RawMemory_dtor d w1)"
  by (simp add: RawMemory_dtor_def at_most_event)

lemma at_most_RawMemory_new:
  assumes "RawMemory_new env n w1 = Ok d w2 \<or> RawMemory_new env n w1 = Throw e w2"
    and "\<forall>b. k \<noteq> OpNew b" "at_most m k w w1"
  shows "at_most m k w w2"
  using assms
  by (auto simp: RawMemory_new_def Allocate_def Let_def split: outcome.splits if_splits prod.splits
      intro: at_most_attempt)

lemma at_most_install_new_data:
  "install_new_data v nd w1 = (v1, w2) \<Longrightarrow> at_most m k w w1 \<Longrightarrow> at_most m k w w2"
  by (auto simp: install_new_data_def split: prod.splits
      intro: at_most_RawMemory_dtor at_most_destroy_n)

lemma at_most_uninit_copy:
  assumes "uninit_copy env src s n dst d0 d w1 = Ok u (b, w2) \<or> uninit_copy env src s n dst d0 d w1 = Throw e (b, w2)"
    and "k \<noteq> CopyCtor" "at_most m k w w1"
  shows "at_most m k w w2"
  using assms(1,3)
proof (induction n arbitrary: s dst d w1)
  case 0
  then show ?case by auto
next
  case (Suc n)
  show ?case
  proof (cases "slot src s")
    case None
    with Suc.prems(1)
    have "uninit_copy env src (Suc s) n dst d0 (Suc d) (log_event (Fault UseNotLive) w1) = Ok u (b, w2)
        \<or> uninit_copy env src (Suc s) n dst d0 (Suc d) (log_event (Fault UseNotLive) w1) = Throw e (b, w2)"
      by simp
    moreover from Suc.prems(2) have "at_most m k w (log_event (Fault UseNotLive) w1)"
      by (simp add: at_most_event)
    ultimately show ?thesis by (rule Suc.IH)
  next
    case (Some x)
    obtain f dst1 w1' where c: "construct_at env CopyCtor x dst d w1 = (f, dst1, w1')"
      by (cases "construct_at env CopyCtor x dst d w1") auto
    from at_most_construct_at [OF c _ Suc.prems(2)] assms(2) have a: "at_most m k w w1'" by simp
    show ?thesis
    proof (cases f)
      case True
      with Suc.prems(1) Some c have "destroy_n dst1 d0 (d - d0) w1' = (b, w2)" by auto
      from at_most_destroy_n [OF this a] show ?thesis .
    next
      case False
      with Suc.prems(1) Some c
      have "uninit_copy env src (Suc s) n dst1 d0 (Suc d) w1' = Ok u (b, w2)
          \<or> uninit_copy env src (Suc s) n dst1 d0 (Suc d) w1' = Throw e (b, w2)"
        by simp
      from Suc.IH [OF this a] show ?thesis .
    qed
  qed
qed

lemma at_most_uninit_move:
  assumes "uninit_move env src s n dst d0 d w1 = Ok u (b, w2) \<or> uninit_move env src s n dst d0 d w1 = Throw e (b, w2)"
    and "k \<noteq> MoveCtor" "at_most m k w w1"
  shows "at_most m k w w2"
  using assms(1,3)
proof (induction n arbitrary: s src dst d w1)
  case 0
  then show ?case by auto
next
  case (Suc n)
  show ?case
  proof (cases "slot src s")
    case None
    with Suc.prems(1)
    have "uninit_move env src (Suc s) n dst d0 (Suc d) (log_event (Fault UseNotLive) w1) = Ok u (b, w2)
        \<or> uninit_move env src (Suc s) n dst d0 (Suc d) (log_event (Fault UseNotLive) w1) = Throw e (b, w2)"
      by simp
    moreover from Suc.prems(2) have "at_most m k w (log_event (Fault UseNotLive) w1)"
      by (simp add: at_most_event)
    ultimately show ?thesis by (rule Suc.IH)
  next
    case (Some x)
    obtain f dst1 w1' where c: "construct_at env MoveCtor x dst d w1 = (f, dst1, w1')"
      by (cases "construct_at env MoveCtor x dst d w1") auto
    from at_most_construct_at [OF c _ Suc.prems(2)] assms(2) have a: "at_most m k w w1'" by simp
    show ?thesis
    proof (cases f)
      case True
      with Suc.prems(1) Some c obtain dst2 where "destroy_n dst1 d0 (d - d0) w1' = (dst2, w2)"
        by (auto split: prod.splits)
      from at_most_destroy_n [OF this a] show ?thesis .
    next
      case False
      with Suc.prems(1) Some c
      have "uninit_move env (src[s := Some (moved_from env x)]) (Suc s) n dst1 d0 (Suc d) w1' = Ok u (b, w2)
          \<or> uninit_move env (src[s := Some (moved_from env x)]) (Suc s) n dst1 d0 (Suc d) w1' = Throw e (b, w2)"
        by simp
      from Suc.IH [OF this a] show ?thesis .
    qed
  qed
qed

lemma at_most_copy_n:
  assumes "uninitialized_copy_n env src s n dst d w1 = Ok u (b, w2) \<or> uninitialized_copy_n env src s n dst d w1 = Throw e (b, w2)"
    and "k \<noteq> CopyCtor" "at_most m k w w1"
  shows "at_most m k w w2"
  using assms at_most_uninit_copy [of env src s n dst d d w1 u b w2 e k m w]
  by (simp add: uninitialized_copy_n_def)

lemma at_most_move_n:
  assumes "uninitialized_move_n env src s n dst d w1 = Ok u (b, w2) \<or> uninitialized_move_n env src s n dst d w1 = Throw e (b, w2)"
    and "k \<noteq> MoveCtor" "at_most m k w w1"
  shows "at_most m k w w2"
  using assms at_most_uninit_move [of env src s n dst d d w1 u b w2 e k m w]
  by (simp add: uninitialized_move_n_def)

lemma other_op_cases:
  "use_move env \<Longrightarrow> other_op env = CopyCtor"
  "\<not> use_move env \<Longrightarrow> other_op env = MoveCtor"
  by (simp_all add: other_op_def)

lemma no_copy_steps:
  "RawMemory_new env n w1 = Ok nd w2 \<Longrightarrow> at_most m CopyCtor w w1 \<Longrightarrow> at_most m CopyCtor w w2"
  "RawMemory_new env n w1 = Throw e w2 \<Longrightarrow> at_most m CopyCtor w w1 \<Longrightarrow> at_most m CopyCtor w w2"
  "uninitialized_move_n env src s l dst d w1 = Ok u (bb, w2) \<Longrightarrow> at_most m CopyCtor w w1 \<Longrightarrow> at_most m CopyCtor w w2"
  "uninitialized_move_n env src s l dst d w1 = Throw e (bb, w2) \<Longrightarrow> at_most m CopyCtor w w1 \<Longrightarrow> at_most m CopyCtor w w2"
  using at_most_RawMemory_new [of env n w1 nd w2 e CopyCtor m w]
    at_most_move_n [of env src s l dst d w1 u bb w2 e CopyCtor m w]
  by simp_all

lemma no_move_steps:
  "RawMemory_new env n w1 = Ok nd w2 \<Longrightarrow> at_most m MoveCtor w w1 \<Longrightarrow> at_most m MoveCtor w w2"
  "RawMemory_new env n w1 = Throw e w2 \<Longrightarrow> at_most m MoveCtor w w1 \<Longrightarrow> at_most m MoveCtor w w2"
  "uninitialized_copy_n env src s l dst d w1 = Ok u (b, w2) \<Longrightarrow> at_most m MoveCtor w w1 \<Longrightarrow> at_most m MoveCtor w w2"
  "uninitialized_copy_n env src s l dst d w1 = Throw e (b, w2) \<Longrightarrow> at_most m MoveCtor w w1 \<Longrightarrow> at_most m MoveCtor w w2"
  using at_most_RawMemory_new [of env n w1 nd w2 e MoveCtor m w]
    at_most_copy_n [of env src s l dst d w1 u b w2 e MoveCtor m w]
  by simp_all

text \<open>
  \<^verbatim>\<open>Reserve\<close>, however it ends, does not attempt the other constructor; \<^verbatim>\<open>EmplaceBack\<close>
  and \<^verbatim>\<open>Emplace\<close> on a full vector attempt it at most for the new element.
\<close>

lemmas any_steps = at_most_destroy_n at_most_install_new_data at_most_RawMemory_dtor at_most_refl

lemma Reserve_no_copy:
  assumes "use_move env"
    and "Reserve env n v w = Ok u (v', w') \<or> Reserve env n v w = Throw e (v', w')"
  shows "at_most 0 CopyCtor w w'"
  using assms(2) assms(1)
  apply (simp add: Reserve_def split: if_splits outcome.splits prod.splits)
  apply (blast intro: no_copy_steps any_steps)+
  done

lemma Reserve_no_move:
  assumes "\<not> use_move env"
    and "Reserve env n v w = Ok u (v', w') \<or> Reserve env n v w = Throw e (v', w')"
  shows "at_most 0 MoveCtor w w'"
  using assms(2) assms(1)
  apply (simp add: Reserve_def split: if_splits outcome.splits prod.splits)
  apply (blast intro: no_move_steps any_steps)+
  done

lemma at_most_EmplaceBack_return:
  "EmplaceBack_return v w1 = Ok r s \<Longrightarrow> at_most m k w w1 \<Longrightarrow> at_most m k w (snd s)"
  by (auto simp: EmplaceBack_return_def Let_def split: if_splits)

lemma at_most_Emplace_return:
  "Emplace_return c v w1 = Ok r s \<Longrightarrow> at_most m k w w1 \<Longrightarrow> at_most m k w (snd s)"
  by (auto simp: Emplace_return_def)

lemmas return_steps = at_most_EmplaceBack_return at_most_Emplace_return

lemma EmplaceBack_no_copy:
  assumes "use_move env" "m_size v = Capacity v"
    and "EmplaceBack env ctor x v w = Ok r s \<or> EmplaceBack env ctor x v w = Throw e s"
  shows "at_most (own ctor CopyCtor) CopyCtor w (snd s)"
  using assms(3) assms(1,2)
  apply (clarsimp simp: EmplaceBack_def split: if_splits outcome.splits prod.splits)
  apply ((rule at_most_RawMemory_dtor at_most_refl
        | erule no_copy_steps at_most_construct_at_own at_most_destroy_n at_most_destroy_at
            at_most_install_new_data return_steps)+)
  done

lemma EmplaceBack_no_move:
  assumes "\<not> use_move env" "m_size v = Capacity v"
    and "EmplaceBack env ctor x v w = Ok r s \<or> EmplaceBack env ctor x v w = Throw e s"
  shows "at_most (own ctor MoveCtor) MoveCtor w (snd s)"
  using assms(3) assms(1,2)
  apply (clarsimp simp: EmplaceBack_def split: if_splits outcome.splits prod.splits)
  apply ((rule at_most_RawMemory_dtor at_most_refl
        | erule no_move_steps at_most_construct_at_own at_most_destroy_n at_most_destroy_at
            at_most_install_new_data return_steps)+)
  done

lemma Emplace_realloc_no_copy:
  assumes "use_move env"
    and "Emplace_realloc env c ctor x v w = Ok r s \<or> Emplace_realloc env c ctor x v w = Throw e s"
  shows "at_most (own ctor CopyCtor) CopyCtor w (snd s)"
  using assms(2) assms(1)
  apply (clarsimp simp: Emplace_realloc_def split: if_splits outcome.splits prod.splits)
  apply ((rule at_most_RawMemory_dtor at_most_refl
        | erule no_copy_steps at_most_construct_at_own at_most_destroy_n at_most_destroy_at
            at_most_install_new_data return_steps)+)
  done

lemma Emplace_realloc_no_move:
  assumes "\<not> use_move env"
    and "Emplace_realloc env c ctor x v w = Ok r s \<or> Emplace_realloc env c ctor x v w = Throw e s"
  shows "at_most (own ctor MoveCtor) MoveCtor w (snd s)"
  using assms(2) assms(1)
  apply (clarsimp simp: Emplace_realloc_def split: if_splits outcome.splits prod.splits)
  apply ((rule at_most_RawMemory_dtor at_most_refl
        | erule no_move_steps at_most_construct_at_own at_most_destroy_n at_most_destroy_at
            at_most_install_new_data return_steps)+)
  done

lemma leavesI:
  "(\<And>x s. r = Ok x s \<Longrightarrow> Q (snd s)) \<Longrightarrow> (\<And>e s. r = Throw e s \<Longrightarrow> Q (snd s)) \<Longrightarrow> leaves r Q"
  by (auto simp: leaves_def split: outcome.splits)

lemma Reserve_leaves: "leaves (Reserve env n v w) (at_most 0 (other_op env) w)"
proof (cases "use_move env")
  case True
  then show ?thesis
    using Reserve_no_copy [of env n v w] by (intro leavesI) (auto simp: other_op_cases)
next
  case False
  then show ?thesis
    using Reserve_no_move [of env n v w] by (intro leavesI) (auto simp: other_op_cases)
qed

lemma EmplaceBack_leaves:
  assumes "m_size v = Capacity v"
  shows "leaves (EmplaceBack env ctor x v w) (at_most (own ctor (other_op env)) (other_op env) w)"
proof (cases "use_move env")
  case True
  with assms show ?thesis
    using EmplaceBack_no_copy [of env v ctor x w] by (intro leavesI) (auto simp: other_op_cases)
next
  case False
  with assms show ?thesis
    using EmplaceBack_no_move [of env v ctor x w] by (intro leavesI) (auto simp: other_op_cases)
qed

lemma Emplace_is_realloc:
  "m_size v = Capacity v \<Longrightarrow> Emplace env pos ctor x v w = Ok r s \<or> Emplace env pos ctor x v w = Throw e s \<Longrightarrow>
   Emplace_realloc env (nat pos) ctor x v w = Emplace env pos ctor x v w"
  by (auto simp: Emplace_def Let_def split: if_splits)

lemma Emplace_leaves:
  assumes "m_size v = Capacity v"
  shows "leaves (Emplace env pos ctor x v w) (at_most (own ctor (other_op env)) (other_op env) w)"
proof (rule leavesI)
  fix r s assume a: "Emplace env pos ctor x v w = Ok r s"
  with Emplace_is_realloc [OF assms, of env pos ctor x w r s]
  have "Emplace_realloc env (nat pos) ctor x v w = Ok r s" by simp
  then show "at_most (own ctor (other_op env)) (other_op env) w (snd s)"
    using Emplace_realloc_no_copy [of env "nat pos" ctor x v w r s]
      Emplace_realloc_no_move [of env "nat pos" ctor x v w r s]
    by (cases "use_move env") (simp_all add: other_op_cases)
next
  fix e s assume a: "Emplace env pos ctor x v w = Throw e s"
  with Emplace_is_realloc [OF assms, of env pos ctor x w _ s e]
  have "Emplace_realloc env (nat pos) ctor x v w = Throw e s" by simp
  then show "at_most (own ctor (other_op env)) (other_op env) w (snd s)"
    using Emplace_realloc_no_copy [of env "nat pos" ctor x v w _ s e]
      Emplace_realloc_no_move [of env "nat pos" ctor x v w _ s e]
    by (cases "use_move env") (simp_all add: other_op_cases)
qed

lemma fits_double: "fits env (max 1 (cap * 2)) \<Longrightarrow> cap < 2 ^ 63"
proof -
  assume f: "fits env (max 1 (cap * 2))"
  then have "cap * 2 \<le> max 1 (cap * 2) * size_of env" by (simp add: fits_def max_def)
  also from f have "\<dots> < 2 ^ 64" by (simp add: fits_def size_t_max_def)
  finally show ?thesis by simp
qed

text \<open>The three reallocations of a vector holding \<open>xs\<close>.\<close>

lemma Reserve_transfers:
  assumes "length xs \<le> cap" "cap < n" "fits env n"
  shows "(Reserve env n (vec xs cap) w = Ok u (v', w') \<longrightarrow>
            v' = vec xs n \<and> w' = transferred env (length xs) (did (OpNew (n * size_of env)) 1 w))
       \<and> (quiet env \<longrightarrow>
            Reserve env n (vec xs cap) w =
              Ok () (vec xs n, transferred env (length xs) (did (OpNew (n * size_of env)) 1 w)))"
proof (intro conjI impI)
  assume "Reserve env n (vec xs cap) w = Ok u (v', w')"
  from Reserve_vec [OF assms this]
  show "v' = vec xs n" "w' = transferred env (length xs) (did (OpNew (n * size_of env)) 1 w)"
    by (simp_all add: transferred_def)
next
  assume "quiet env"
  from Reserve_quiet [OF this] obtain v1 w1 where r: "Reserve env n (vec xs cap) w = Ok () (v1, w1)"
    by blast
  from Reserve_vec [OF assms r] r
  show "Reserve env n (vec xs cap) w =
      Ok () (vec xs n, transferred env (length xs) (did (OpNew (n * size_of env)) 1 w))"
    by (simp add: transferred_def)
qed

lemma EmplaceBack_transfers:
  assumes "length xs = cap" "fits env (max 1 (cap * 2))"
  shows "(EmplaceBack env ctor x (vec xs cap) w = Ok r (v', w') \<longrightarrow>
            v' = vec (xs @ [x]) (max 1 (cap * 2))
          \<and> w' = transferred env (length xs) (did ctor 1 (did (OpNew (max 1 (cap * 2) * size_of env)) 1 w)))
       \<and> (quiet env \<longrightarrow>
            EmplaceBack env ctor x (vec xs cap) w =
              Ok (length xs) (vec (xs @ [x]) (max 1 (cap * 2)),
                 transferred env (length xs) (did ctor 1 (did (OpNew (max 1 (cap * 2) * size_of env)) 1 w))))"
proof (intro conjI impI)
  note c = fits_double [OF assms(2)]
  assume "EmplaceBack env ctor x (vec xs cap) w = Ok r (v', w')"
  from EmplaceBack_grow [OF assms(1) c this assms(2)]
  show "v' = vec (xs @ [x]) (max 1 (cap * 2))"
    "w' = transferred env (length xs) (did ctor 1 (did (OpNew (max 1 (cap * 2) * size_of env)) 1 w))"
    by (simp_all add: transferred_def)
next
  note c = fits_double [OF assms(2)]
  assume q: "quiet env"
  have "m_size (vec xs cap) \<le> Capacity (vec xs cap)" "Capacity (vec xs cap) < 2 ^ 63"
    using assms(1) c by simp_all
  from EmplaceBack_quiet [OF q this, of ctor x w] obtain v1 w1 where
    r: "EmplaceBack env ctor x (vec xs cap) w = Ok (length xs) (v1, w1)" by auto
  from EmplaceBack_grow [OF assms(1) c r assms(2)] r
  show "EmplaceBack env ctor x (vec xs cap) w =
      Ok (length xs) (vec (xs @ [x]) (max 1 (cap * 2)),
         transferred env (length xs) (did ctor 1 (did (OpNew (max 1 (cap * 2) * size_of env)) 1 w)))"
    by (simp add: transferred_def)
qed

lemma Emplace_transfers:
  assumes "length xs = cap" "fits env (max 1 (cap * 2))" "0 \<le> pos" "pos \<le> int (length xs)"
  shows "(Emplace env pos ctor x (vec xs cap) w = Ok r (v', w') \<longrightarrow>
            v' = vec (take (nat pos) xs @ x # drop (nat pos) xs) (max 1 (cap * 2))
          \<and> w' = transferred env (length xs) (did ctor 1 (did (OpNew (max 1 (cap * 2) * size_of env)) 1 w)))
       \<and> (quiet env \<longrightarrow>
            Emplace env pos ctor x (vec xs cap) w =
              Ok (nat pos) (vec (take (nat pos) xs @ x # drop (nat pos) xs) (max 1 (cap * 2)),
                 transferred env (length xs) (did ctor 1 (did (OpNew (max 1 (cap * 2) * size_of env)) 1 w))))"
proof -
  note c = fits_double [OF assms(2)]
  from assms(3,4) have p: "nat pos \<le> length xs" by simp
  have ex: "v1 = vec (take (nat pos) xs @ x # drop (nat pos) xs) (max 1 (cap * 2))
      \<and> w1 = transferred env (length xs) (did ctor 1 (did (OpNew (max 1 (cap * 2) * size_of env)) 1 w))"
    if "Emplace env pos ctor x (vec xs cap) w = Ok r1 (v1, w1)" for r1 v1 w1
  proof -
    from that assms(1,3,4) have "Emplace_realloc env (nat pos) ctor x (vec xs cap) w = Ok r1 (v1, w1)"
      by (simp add: Emplace_def Let_def)
    from Emplace_realloc_vec [OF assms(1) c p this assms(2)] show ?thesis
      by (simp add: transferred_def)
  qed
  show ?thesis
  proof (intro conjI impI)
    assume "Emplace env pos ctor x (vec xs cap) w = Ok r (v', w')"
    from ex [OF this]
    show "v' = vec (take (nat pos) xs @ x # drop (nat pos) xs) (max 1 (cap * 2))"
      "w' = transferred env (length xs) (did ctor 1 (did (OpNew (max 1 (cap * 2) * size_of env)) 1 w))"
      by simp_all
  next
    assume q: "quiet env"
    have "m_size (vec xs cap) \<le> Capacity (vec xs cap)" using assms(1) by simp
    moreover have "pos \<le> int (m_size (vec xs cap))" using assms(4) by simp
    ultimately obtain v1 w1 where
      r: "Emplace env pos ctor x (vec xs cap) w = Ok (nat pos) (v1, w1)"
      using Emplace_quiet [OF q _ assms(3), of "vec xs cap" ctor x w] by auto
    from ex [OF r] r
    show "Emplace env pos ctor x (vec xs cap) w =
        Ok (nat pos) (vec (take (nat pos) xs @ x # drop (nat pos) xs) (max 1 (cap * 2)),
           transferred env (length xs) (did ctor 1 (did (OpNew (max 1 (cap * 2) * size_of env)) 1 w)))"
      by simp
  qed
qed

text \<open>
  C2.  When the elements are transferred to a new block, they are move-constructed if
  the element type is nothrow-move-constructible or is not copy-constructible, and
  copy-constructed otherwise.  For a vector holding \<open>xs\<close>, a \<^verbatim>\<open>Reserve\<close> beyond the
  capacity, and an \<^verbatim>\<open>EmplaceBack\<close> or \<^verbatim>\<open>Emplace\<close> on the full vector (the bytes of the new
  block being a \<^verbatim>\<open>size_t\<close>), return when no operation fails, and whenever they return they
  have allocated the block, constructed the new element if there is one, constructed each
  element of \<open>xs\<close> once in the new block with that constructor, and then destroyed each old
  element.  However \<^verbatim>\<open>Reserve\<close>, or \<^verbatim>\<open>EmplaceBack\<close> or \<^verbatim>\<open>Emplace\<close> on any full vector, ends,
  by returning or by an exception, it has not attempted the other constructor, except
  once for the new element when the arguments select it.
\<close>

theorem transfer_rule:
  "(transfer_op env = MoveCtor) = (nothrow_move_constructible env \<or> \<not> copy_constructible env)
   \<and> (transfer_op env = CopyCtor) = (\<not> nothrow_move_constructible env \<and> copy_constructible env)
   \<and> (other_op env = CopyCtor) = (transfer_op env = MoveCtor)
   \<and> (other_op env = MoveCtor) = (transfer_op env = CopyCtor)
   \<and> (length xs \<le> cap \<longrightarrow> cap < n \<longrightarrow> fits env n \<longrightarrow>
        (Reserve env n (vec xs cap) w = Ok u (v1, w1) \<longrightarrow>
           v1 = vec xs n \<and> w1 = transferred env (length xs) (did (OpNew (n * size_of env)) 1 w))
      \<and> (quiet env \<longrightarrow>
           Reserve env n (vec xs cap) w =
             Ok () (vec xs n, transferred env (length xs) (did (OpNew (n * size_of env)) 1 w))))
   \<and> (length xs = cap \<longrightarrow> fits env (max 1 (cap * 2)) \<longrightarrow>
        (EmplaceBack env ctor x (vec xs cap) w = Ok r2 (v2, w2) \<longrightarrow>
           v2 = vec (xs @ [x]) (max 1 (cap * 2))
         \<and> w2 = transferred env (length xs) (did ctor 1 (did (OpNew (max 1 (cap * 2) * size_of env)) 1 w)))
      \<and> (quiet env \<longrightarrow>
           EmplaceBack env ctor x (vec xs cap) w =
             Ok (length xs) (vec (xs @ [x]) (max 1 (cap * 2)),
                transferred env (length xs) (did ctor 1 (did (OpNew (max 1 (cap * 2) * size_of env)) 1 w)))))
   \<and> (length xs = cap \<longrightarrow> fits env (max 1 (cap * 2)) \<longrightarrow> 0 \<le> pos \<longrightarrow> pos \<le> int (length xs) \<longrightarrow>
        (Emplace env pos ctor x (vec xs cap) w = Ok r3 (v3, w3) \<longrightarrow>
           v3 = vec (take (nat pos) xs @ x # drop (nat pos) xs) (max 1 (cap * 2))
         \<and> w3 = transferred env (length xs) (did ctor 1 (did (OpNew (max 1 (cap * 2) * size_of env)) 1 w)))
      \<and> (quiet env \<longrightarrow>
           Emplace env pos ctor x (vec xs cap) w =
             Ok (nat pos) (vec (take (nat pos) xs @ x # drop (nat pos) xs) (max 1 (cap * 2)),
                transferred env (length xs) (did ctor 1 (did (OpNew (max 1 (cap * 2) * size_of env)) 1 w)))))
   \<and> leaves (Reserve env n v w) (at_most 0 (other_op env) w)
   \<and> (m_size v = Capacity v \<longrightarrow>
        leaves (EmplaceBack env ctor x v w) (at_most (own ctor (other_op env)) (other_op env) w)
      \<and> leaves (Emplace env pos ctor x v w) (at_most (own ctor (other_op env)) (other_op env) w))"
proof -
  have a: "(transfer_op env = MoveCtor) = (nothrow_move_constructible env \<or> \<not> copy_constructible env)"
    "(transfer_op env = CopyCtor) = (\<not> nothrow_move_constructible env \<and> copy_constructible env)"
    by (simp_all add: transfer_op_def use_move_def)
  have b: "(other_op env = CopyCtor) = (transfer_op env = MoveCtor)"
    "(other_op env = MoveCtor) = (transfer_op env = CopyCtor)"
    by (simp_all add: transfer_op_def other_op_def)
  show ?thesis
    apply (intro conjI)
    apply (rule a(1))
    apply (rule a(2))
    apply (rule b(1))
    apply (rule b(2))
    apply (intro impI, rule Reserve_transfers, assumption+)
    apply (intro impI, rule EmplaceBack_transfers, assumption+)
    apply (intro impI, rule Emplace_transfers, assumption+)
    apply (rule Reserve_leaves)
    apply (rule impI, rule conjI, erule EmplaceBack_leaves, erule Emplace_leaves)
    done
qed

text \<open>
  The witness: \<open>[1, 2, 3]\<close> with capacity 3.  For a type whose move constructor cannot
  fail, \<^verbatim>\<open>Reserve(5)\<close> and \<^verbatim>\<open>PushBack(const T&)\<close> move the three elements (the new element
  is copied); for a type whose move constructor may fail, \<^verbatim>\<open>Reserve(5)\<close> and \<^verbatim>\<open>Emplace\<close> copy
  them; and \<^verbatim>\<open>EmplaceBack\<close> for a type whose copy constructor throws on the second copy
  exits with the exception without having attempted a move.
\<close>

theorem transfer_rule_witness:
  "transfer_op (elem_type True True (\<lambda>k t. False)) = MoveCtor
   \<and> transfer_op (elem_type False True (\<lambda>k t. False)) = CopyCtor
   \<and> Reserve (elem_type True True (\<lambda>k t. False)) 5 (vec [1, 2, 3] 3) start
       = Ok () (vec [1, 2, 3] 5,
           \<lparr>tick = 4, trace = [Did (OpNew 20), Did MoveCtor, Did MoveCtor, Did MoveCtor,
              Destroyed, Destroyed, Destroyed]\<rparr>)
   \<and> Reserve (elem_type False True (\<lambda>k t. False)) 5 (vec [1, 2, 3] 3) start
       = Ok () (vec [1, 2, 3] 5,
           \<lparr>tick = 4, trace = [Did (OpNew 20), Did CopyCtor, Did CopyCtor, Did CopyCtor,
              Destroyed, Destroyed, Destroyed]\<rparr>)
   \<and> EmplaceBack (elem_type True True (\<lambda>k t. False)) CopyCtor 9 (vec [1, 2, 3] 3) start
       = Ok 3 (vec [1, 2, 3, 9] 6,
           \<lparr>tick = 5, trace = [Did (OpNew 24), Did CopyCtor, Did MoveCtor, Did MoveCtor, Did MoveCtor,
              Destroyed, Destroyed, Destroyed]\<rparr>)
   \<and> Emplace (elem_type False True (\<lambda>k t. False)) 1 ArgCtor 9 (vec [1, 2, 3] 3) start
       = Ok 1 (vec [1, 9, 2, 3] 6,
           \<lparr>tick = 5, trace = [Did (OpNew 24), Did ArgCtor, Did CopyCtor, Did CopyCtor, Did CopyCtor,
              Destroyed, Destroyed, Destroyed]\<rparr>)
   \<and> EmplaceBack (elem_type False True (\<lambda>k t. k = CopyCtor \<and> t = 3)) ArgCtor 9 (vec [1, 2, 3] 3) start
       = Throw elem_exn (vec [1, 2, 3] 3,
           \<lparr>tick = 4, trace = [Did (OpNew 24), Did ArgCtor, Did CopyCtor, Threw CopyCtor, Destroyed,
              Fault DestroyNotLive, Fault DestroyNotLive, Fault DestroyNotLive, Fault FreedWhileLive]\<rparr>)
   \<and> leaves (EmplaceBack (elem_type False True (\<lambda>k t. k = CopyCtor \<and> t = 3)) ArgCtor 9 (vec [1, 2, 3] 3) start)
       (at_most 0 MoveCtor start)
   \<and> leaves (EmplaceBack (elem_type True True (\<lambda>k t. False)) CopyCtor 9 (vec [1, 2, 3] 3) start)
       (at_most 1 CopyCtor start)"
proof -
  let ?M = "elem_type True True (\<lambda>k t. False)"
  let ?C = "elem_type False True (\<lambda>k t. False)"
  let ?T = "elem_type False True (\<lambda>k t. k = CopyCtor \<and> t = 3)"
  let ?xs = "[1, 2, 3 :: int]"
  have l: "length ?xs \<le> 3" "length ?xs = 3" "(3 :: nat) < 5" "(0 :: int) \<le> 1" "(1 :: int) \<le> int (length ?xs)"
    by simp_all
  have sz: "m_size (vec ?xs 3) = Capacity (vec ?xs 3)" by simp
  have q: "quiet ?M" "quiet ?C" by (simp_all add: quiet_def fails_def elem_type_def)
  have f: "fits ?M 5" "fits ?C 5" "fits ?M (max 1 (3 * 2))" "fits ?C (max 1 (3 * 2))"
    by (simp_all add: fits_def elem_type_def size_t_max_def)
  have tr: "nothrow_move_constructible ?M" "\<not> nothrow_move_constructible ?C \<and> copy_constructible ?C"
    by (simp_all add: elem_type_def)
  have o: "other_op ?T = MoveCtor" "other_op ?M = CopyCtor" "own ArgCtor MoveCtor = 0" "own CopyCtor CopyCtor = 1"
    by (simp_all add: other_op_def use_move_def elem_type_def own_def)
  have e1: "(vec ?xs 5, transferred ?M (length ?xs) (did (OpNew (5 * size_of ?M)) 1 start))
      = (vec [1, 2, 3] 5,
           \<lparr>tick = 4, trace = [Did (OpNew 20), Did MoveCtor, Did MoveCtor, Did MoveCtor,
              Destroyed, Destroyed, Destroyed]\<rparr>)"
    by code_simp
  have e2: "(vec ?xs 5, transferred ?C (length ?xs) (did (OpNew (5 * size_of ?C)) 1 start))
      = (vec [1, 2, 3] 5,
           \<lparr>tick = 4, trace = [Did (OpNew 20), Did CopyCtor, Did CopyCtor, Did CopyCtor,
              Destroyed, Destroyed, Destroyed]\<rparr>)"
    by code_simp
  have e3: "Ok (length ?xs) (vec (?xs @ [9]) (max 1 (3 * 2)),
        transferred ?M (length ?xs) (did CopyCtor 1 (did (OpNew (max 1 (3 * 2) * size_of ?M)) 1 start)))
      = Ok 3 (vec [1, 2, 3, 9] 6,
           \<lparr>tick = 5, trace = [Did (OpNew 24), Did CopyCtor, Did MoveCtor, Did MoveCtor, Did MoveCtor,
              Destroyed, Destroyed, Destroyed]\<rparr>)"
    by code_simp
  have e4: "Ok (nat 1) (vec (take (nat 1) ?xs @ 9 # drop (nat 1) ?xs) (max 1 (3 * 2)),
        transferred ?C (length ?xs) (did ArgCtor 1 (did (OpNew (max 1 (3 * 2) * size_of ?C)) 1 start)))
      = Ok 1 (vec [1, 9, 2, 3] 6,
           \<lparr>tick = 5, trace = [Did (OpNew 24), Did ArgCtor, Did CopyCtor, Did CopyCtor, Did CopyCtor,
              Destroyed, Destroyed, Destroyed]\<rparr>)"
    by code_simp
  have e5: "EmplaceBack ?T ArgCtor 9 (vec ?xs 3) start
       = Throw elem_exn (vec [1, 2, 3] 3,
           \<lparr>tick = 4, trace = [Did (OpNew 24), Did ArgCtor, Did CopyCtor, Threw CopyCtor, Destroyed,
              Fault DestroyNotLive, Fault DestroyNotLive, Fault DestroyNotLive, Fault FreedWhileLive]\<rparr>)"
    by code_simp
  note r = transfer_rule [where xs = ?xs and cap = 3 and n = 5 and w = start and x = 9 and pos = 1
      and v = "vec ?xs 3"]
  note rM = r [where env = ?M and ctor = CopyCtor]
  note rC = r [where env = ?C and ctor = ArgCtor]
  note rT = r [where env = ?T and ctor = ArgCtor]
  have a1: "transfer_op ?M = MoveCtor"
    using rM [THEN conjunct1, THEN iffD2, OF disjI1, OF tr(1)] .
  have a2: "transfer_op ?C = CopyCtor"
    using rC [THEN conjunct2, THEN conjunct1, THEN iffD2, OF tr(2)] .
  note c5 = conjunct2 [THEN conjunct2, THEN conjunct2, THEN conjunct2, THEN conjunct1]
  note c6 = conjunct2 [THEN conjunct2, THEN conjunct2, THEN conjunct2, THEN conjunct2, THEN conjunct1]
  note c7 = conjunct2 [THEN conjunct2, THEN conjunct2, THEN conjunct2, THEN conjunct2, THEN conjunct2, THEN conjunct1]
  note c9 = conjunct2 [THEN conjunct2, THEN conjunct2, THEN conjunct2, THEN conjunct2, THEN conjunct2, THEN conjunct2, THEN conjunct2]
  have b1: "Reserve ?M 5 (vec ?xs 3) start
       = Ok () (vec [1, 2, 3] 5,
           \<lparr>tick = 4, trace = [Did (OpNew 20), Did MoveCtor, Did MoveCtor, Did MoveCtor,
              Destroyed, Destroyed, Destroyed]\<rparr>)"
    using rM [THEN c5, rule_format, OF l(1) l(3) f(1), THEN conjunct2, rule_format, OF q(1)]
    unfolding e1 .
  have b2: "Reserve ?C 5 (vec ?xs 3) start
       = Ok () (vec [1, 2, 3] 5,
           \<lparr>tick = 4, trace = [Did (OpNew 20), Did CopyCtor, Did CopyCtor, Did CopyCtor,
              Destroyed, Destroyed, Destroyed]\<rparr>)"
    using rC [THEN c5, rule_format, OF l(1) l(3) f(2), THEN conjunct2, rule_format, OF q(2)]
    unfolding e2 .
  have b3: "EmplaceBack ?M CopyCtor 9 (vec ?xs 3) start
       = Ok 3 (vec [1, 2, 3, 9] 6,
           \<lparr>tick = 5, trace = [Did (OpNew 24), Did CopyCtor, Did MoveCtor, Did MoveCtor, Did MoveCtor,
              Destroyed, Destroyed, Destroyed]\<rparr>)"
    using rM [THEN c6, rule_format, OF l(2) f(3), THEN conjunct2, rule_format, OF q(1)]
    unfolding e3 .
  have b4: "Emplace ?C 1 ArgCtor 9 (vec ?xs 3) start
       = Ok 1 (vec [1, 9, 2, 3] 6,
           \<lparr>tick = 5, trace = [Did (OpNew 24), Did ArgCtor, Did CopyCtor, Did CopyCtor, Did CopyCtor,
              Destroyed, Destroyed, Destroyed]\<rparr>)"
    using rC [THEN c7, rule_format, OF l(2) f(4) l(4) l(5), THEN conjunct2, rule_format, OF q(2)]
    unfolding e4 .
  have b5: "leaves (EmplaceBack ?T ArgCtor 9 (vec ?xs 3) start) (at_most 0 MoveCtor start)"
    using rT [THEN c9, THEN mp, OF sz, THEN conjunct1] unfolding o .
  have b6: "leaves (EmplaceBack ?M CopyCtor 9 (vec ?xs 3) start) (at_most 1 CopyCtor start)"
    using rM [THEN c9, THEN mp, OF sz, THEN conjunct1] unfolding o .
  show ?thesis
    by (intro conjI) (rule a1 a2 b1 b2 b3 b4 e5 b5 b6)+
qed

end
